theory Spec2Isabelle
  imports Main "HOL-Library.Char_ord" "HOL-Library.List_Lexorder" "HOL-Library.Multiset"
begin

section \<open>Strings of the host language\<close>

text \<open>
  A string is a list of code units, here \<^typ>\<open>char\<close>: the model covers the code units
  below 256. The string builtins that \<open>src/App.tsx\<close> calls are written out below as the
  language standard defines them.
\<close>

abbreviation backslash :: char where "backslash \<equiv> CHR 0x5C"
abbreviation newline :: char where "newline \<equiv> CHR 0x0A"

text \<open>The marker literals of \<open>App.tsx\<close>; its \<open>"\\["\<close> is backslash, bracket.\<close>

abbreviation display_open :: string where "display_open \<equiv> [backslash, CHR ''['']"
abbreviation display_close :: string where "display_close \<equiv> [backslash, CHR '']'']"
abbreviation begin_center :: string where "begin_center \<equiv> backslash # ''begin{center}''"
abbreviation end_center :: string where "end_center \<equiv> backslash # ''end{center}''"
abbreviation begin_tabular :: string where "begin_tabular \<equiv> backslash # ''begin{tabular}''"
abbreviation end_tabular :: string where "end_tabular \<equiv> backslash # ''end{tabular}''"
abbreviation hline :: string where "hline \<equiv> backslash # ''hline''"
abbreviation row_separator :: string where "row_separator \<equiv> [backslash, backslash]"

text \<open>\<open>xs[i]\<close>: \<open>undefined\<close> (here \<open>None\<close>) out of range.\<close>

definition index :: "'a list \<Rightarrow> nat \<Rightarrow> 'a option" where
  "index xs i = (if i < length xs then Some (xs ! i) else None)"

definition startsWith :: "string \<Rightarrow> string \<Rightarrow> bool" where
  "startsWith s p = (take (length p) s = p)"

definition endsWith :: "string \<Rightarrow> string \<Rightarrow> bool" where
  "endsWith s p = (length p \<le> length s \<and> drop (length s - length p) s = p)"

text \<open>\<open>s.indexOf(p)\<close>: the least position where \<open>p\<close> occurs, \<open>None\<close> for \<open>-1\<close>.\<close>

fun indexOf :: "string \<Rightarrow> string \<Rightarrow> nat option" where
  "indexOf [] p = (if p = [] then Some 0 else None)"
| "indexOf (c # cs) p =
     (if startsWith (c # cs) p then Some 0 else map_option Suc (indexOf cs p))"

text \<open>\<open>s.includes(p)\<close>.\<close>

definition js_includes :: "string \<Rightarrow> string \<Rightarrow> bool" where
  "js_includes s p = (indexOf s p \<noteq> None)"

text \<open>
  White space and line terminators among the code units below 256: tab, line feed,
  vertical tab, form feed, carriage return, space, no-break space.
\<close>

definition is_space :: "char \<Rightarrow> bool" where
  "is_space c =
     (c \<in> set [CHR 0x09, CHR 0x0A, CHR 0x0B, CHR 0x0C, CHR 0x0D, CHR 0x20, CHR 0xA0])"

definition trim :: "string \<Rightarrow> string" where
  "trim s = rev (dropWhile is_space (rev (dropWhile is_space s)))"

text \<open>\<open>s.slice(start, fin)\<close>, negative arguments counting from the end.\<close>

definition slice :: "string \<Rightarrow> int \<Rightarrow> int \<Rightarrow> string" where
  "slice s start fin =
     (let len = int (length s);
          lo = (if start < 0 then max (len + start) 0 else min start len);
          hi = (if fin < 0 then max (len + fin) 0 else min fin len)
      in take (nat (hi - lo)) (drop (nat lo) s))"

text \<open>\<open>xs.join(sep)\<close> on an array of strings.\<close>

fun join :: "string \<Rightarrow> string list \<Rightarrow> string" where
  "join sep [] = []"
| "join sep [x] = x"
| "join sep (x # y # ys) = x @ sep @ join sep (y # ys)"

text \<open>\<open>xs.map((x, index) => f(x, index))\<close>, the index counted from \<open>i\<close>.\<close>

fun map_indexed :: "('a \<Rightarrow> nat \<Rightarrow> 'b) \<Rightarrow> nat \<Rightarrow> 'a list \<Rightarrow> 'b list" where
  "map_indexed f i [] = []"
| "map_indexed f i (x # xs) = f x i # map_indexed f (Suc i) xs"

text \<open>
  \<open>s.split(sep)\<close> with a string separator: the code units of \<open>s\<close> when \<open>sep\<close> is
  empty, otherwise the substrings between the successive occurrences of \<open>sep\<close>, each
  searched from the end of the one before.
\<close>

function split :: "string \<Rightarrow> string \<Rightarrow> string list" where
  "split s sep =
     (if sep = [] then map (\<lambda>c. [c]) s
      else case indexOf s sep of
             None \<Rightarrow> [s]
           | Some j \<Rightarrow> take j s # split (drop (j + length sep) s) sep)"
  by pat_completeness auto
termination
proof (relation "measure (\<lambda>(s, sep). length s)")
  show "wf (measure (\<lambda>(s, sep). length s))" by simp
next
  fix s sep :: string and j
  assume "sep \<noteq> []" and "indexOf s sep = Some j"
  then have "s \<noteq> []" and "0 < length sep"
    by (cases s; simp)+
  then show "((drop (j + length sep) s, sep), (s, sep)) \<in> measure (\<lambda>(s, sep). length s)"
    by simp
qed

declare split.simps [simp del]

subsection \<open>Regular expressions\<close>

text \<open>
  A regular expression without anchors or look-behind is given by what it matches at the
  start of a suffix of the subject: the length of the match and its capture groups.
\<close>

type_synonym matcher = "string \<Rightarrow> (nat \<times> string list) option"

text \<open>
  \<open>regex.exec(s)\<close> without the global flag: the first position, from the left, where the
  expression matches; the result carries that position, the length and the captures.
\<close>

fun regex_exec :: "matcher \<Rightarrow> string \<Rightarrow> (nat \<times> nat \<times> string list) option" where
  "regex_exec m [] = map_option (\<lambda>(n, caps). (0, n, caps)) (m [])"
| "regex_exec m (c # cs) =
     (case m (c # cs) of
        Some (n, caps) \<Rightarrow> Some (0, n, caps)
      | None \<Rightarrow> map_option (\<lambda>(i, n, caps). (Suc i, n, caps)) (regex_exec m cs))"

text \<open>
  \<open>s.split(regex)\<close>: the scan of the standard's \<open>RegExp.prototype[Symbol.split]\<close>.
  \<open>cur\<close> holds, reversed, the code units from the end \<open>p\<close> of the last match to the
  scan position \<open>q\<close>. A failed match, or an empty match at \<open>p\<close>, moves \<open>q\<close> on by one;
  any other match closes the piece, appends the captures and restarts after the match.
\<close>

function regex_split_loop :: "matcher \<Rightarrow> string \<Rightarrow> string \<Rightarrow> string list" where
  "regex_split_loop m cur [] = [rev cur]"
| "regex_split_loop m cur (c # cs) =
     (case m (c # cs) of
        None \<Rightarrow> regex_split_loop m (c # cur) cs
      | Some (n, caps) \<Rightarrow>
          if n = 0 \<and> cur = [] then regex_split_loop m (c # cur) cs
          else rev cur # caps @ regex_split_loop m [] (drop n (c # cs)))"
  by pat_completeness auto
termination
  by (relation "inv_image (less_than <*lex*> less_than)
                  (\<lambda>(m, cur, s). (length s, length cur))")
     auto

definition regex_split :: "matcher \<Rightarrow> string \<Rightarrow> string list" where
  "regex_split m s =
     (if s = [] then (case m [] of None \<Rightarrow> [[]] | Some _ \<Rightarrow> [])
      else regex_split_loop m [] s)"

text \<open>\<open>/\n+/\<close>: a greedy run of one or more line feeds.\<close>

definition newline_run :: matcher where
  "newline_run s =
     (let n = length (takeWhile (\<lambda>c. c = newline) s)
      in if n = 0 then None else Some (n, []))"

text \<open>
  \<open>opening[\s\S]*?closing\<close> at the start of \<open>s\<close>: the lazy star stops at the first
  \<open>closing\<close> after \<open>opening\<close>; the result is the length of what the star consumed.
\<close>

definition lazy_between :: "string \<Rightarrow> string \<Rightarrow> string \<Rightarrow> nat option" where
  "lazy_between opening closing s =
     (if startsWith s opening then indexOf (drop (length opening) s) closing else None)"

text \<open>\<open>/(\\\[[\s\S]*?\\\])/\<close>: group 1 is the whole match.\<close>

definition display_region :: matcher where
  "display_region s =
     map_option (\<lambda>j. (2 + j + 2, [take (2 + j + 2) s]))
       (lazy_between display_open display_close s)"

text \<open>\<open>/\\begin{tabular}([\s\S]*?)\\end{tabular}/\<close>: group 1 is what the star consumed.\<close>

definition tabular_region :: matcher where
  "tabular_region s =
     map_option
       (\<lambda>j. (length begin_tabular + j + length end_tabular,
             [take j (drop (length begin_tabular) s)]))
       (lazy_between begin_tabular end_tabular s)"

section \<open>The renderer of \<open>src/App.tsx\<close>\<close>

text \<open>
  \<open>katex.renderToString(expr, {throwOnError: false, displayMode})\<close> belongs to a
  library: it is a parameter, from the display-mode flag and the expression to the markup,
  \<open>None\<close> when the call throws.
\<close>

type_synonym typesetter = "bool \<Rightarrow> string \<Rightarrow> string option"




text \<open>
  A typesetter and an engine for the examples. The typesetter returns the expression as
  its markup. The engine fails to parse \<open>x^\<close>, an exponent with nothing after it, and
  returns the expression as its markup otherwise; \<open><katex-error>\<close> stands for the
  library's error markup.
\<close>

definition katex_echo :: typesetter where
  "katex_echo displayMode expr = Some expr"


text \<open>
  The children that \<open>renderMathInline\<close> returns: a plain string, a \<open>span\<close> holding
  typeset markup, or the \<open>span\<close> of the \<open>catch\<close> branch holding the raw expression.
\<close>

datatype inline = Text string | KatexSpan string | PlainSpan string

text \<open>
  What \<open>renderMath\<close> returns, React keys and class names left out: \<open>null\<close>, a bare
  string, a paragraph, the \<open>div\<close> of a typeset display expression, the \<open>div\<close> of the
  \<open>catch\<close> branch, a \<open>Table\<close> element with its \<open>content\<close> property, an array, a
  fragment.
\<close>

datatype node =
    Null
  | Str string
  | P "inline list"
  | MathDiv string
  | PlainDiv string
  | TableEl string
  | Arr "node list"
  | Fragment "node list"

datatype js_error = TypeError

text \<open>The \<open>table\<close> that the \<open>Table\<close> component returns: header cells, then body rows.\<close>

record table_view =
  thead :: "inline list list"
  tbody :: "inline list list list"

definition inline_part :: "typesetter \<Rightarrow> string \<Rightarrow> nat \<Rightarrow> inline" where
  "inline_part katex part i =
     (if i mod 2 = 1
      then (case katex False part of
              Some html \<Rightarrow> KatexSpan html
            | None \<Rightarrow> PlainSpan part)
      else Text part)"

definition renderMathInline :: "typesetter \<Rightarrow> string \<Rightarrow> inline list" where
  "renderMathInline katex text = map_indexed (inline_part katex) 0 (split text ''$'')"

text \<open>
  \<open>Table\<close>: \<open>rows[0]\<close> is \<open>undefined\<close> when no row survives the filter, and
  \<open>rows[0].split\<close> then throws a \<open>TypeError\<close>.
\<close>

definition Table_rows :: "string \<Rightarrow> string list" where
  "Table_rows content =
     filter (\<lambda>row. row \<noteq> hline \<and> row \<noteq> []) (map trim (split content row_separator))"

definition Table :: "typesetter \<Rightarrow> string \<Rightarrow> js_error + table_view" where
  "Table katex content =
     (let rows = Table_rows content
      in case index rows 0 of
           None \<Rightarrow> Inl TypeError
         | Some row0 \<Rightarrow>
             (let headers = map trim (split row0 ''&'');
                  bodyRows = drop 1 rows
              in Inr \<lparr>thead = map (renderMathInline katex) headers,
                      tbody = map (\<lambda>row. map (\<lambda>cell. renderMathInline katex (trim cell))
                                            (split row ''&''))
                                  bodyRows\<rparr>))"

text \<open>The callback of \<open>parts.map\<close> in the display-math branch of \<open>renderMath\<close>.\<close>

definition display_part :: "typesetter \<Rightarrow> string \<Rightarrow> node" where
  "display_part katex part =
     (if startsWith part display_open \<and> endsWith part display_close
      then (let mathContent = slice part 2 (- 2)
            in case katex True (trim mathContent) of
                 Some html \<Rightarrow> MathDiv html
               | None \<Rightarrow> PlainDiv mathContent)
      else Arr (map (\<lambda>textPart.
                       if trim textPart = [] then Null
                       else P (renderMathInline katex textPart))
                    (regex_split newline_run part)))"

text \<open>The callback of \<open>parts.map\<close> in the other branch.\<close>

definition segment_part :: "typesetter \<Rightarrow> string \<Rightarrow> node" where
  "segment_part katex part =
     (if js_includes part begin_center \<and> js_includes part begin_tabular
      then (let tableContent =
                  (case regex_exec tabular_region part of
                     None \<Rightarrow> None
                   | Some (i, n, caps) \<Rightarrow> index caps 0)
            in case tableContent of
                 None \<Rightarrow> Str part
               | Some c \<Rightarrow> if c = [] then Str part else TableEl c)
      else if trim part = begin_center \<or> trim part = end_center then Null
      else P (renderMathInline katex part))"

definition renderMath :: "typesetter \<Rightarrow> string \<Rightarrow> node" where
  "renderMath katex text =
     (if js_includes text display_open \<and> js_includes text display_close
      then Fragment (map (display_part katex) (regex_split display_region text))
      else Arr (map (segment_part katex) (regex_split newline_run text)))"

text \<open>
  What a node puts on the page, in order: \<open>null\<close> nothing, an array or a fragment its
  children, anything else itself.
\<close>

fun blocks :: "node \<Rightarrow> node list" where
  "blocks Null = []"
| "blocks (Arr ns) = concat (map blocks ns)"
| "blocks (Fragment ns) = concat (map blocks ns)"
| "blocks (Str s) = [Str s]"
| "blocks (P c) = [P c]"
| "blocks (MathDiv h) = [MathDiv h]"
| "blocks (PlainDiv s) = [PlainDiv s]"
| "blocks (TableEl c) = [TableEl c]"

section \<open>The quiz session of \<open>src/App.tsx\<close>\<close>

text \<open>
  The order on strings (\<open>HOL-Library.Char_ord\<close> lifted by
  \<open>HOL-Library.List_Lexorder\<close>) is the code-unit lexicographic order that the
  comparator-less \<open>Array.prototype.sort\<close> uses on strings.
\<close>

subsection \<open>Data\<close>

text \<open>The fields of an entry of \<open>quizData.questions\<close> that \<open>App.tsx\<close> reads.\<close>

record quiz_question =
  type :: string
  question :: string
  subject :: string
  gold :: string

text \<open>
  The \<open>useState\<close> cells of \<open>App\<close> and the cell of its \<open>useMemo\<close>. \<open>answers\<close> is
  the \<open>Record<number, string[]>\<close>; a missing key reads as \<open>undefined\<close>. \<open>memo\<close> holds
  the dependency \<open>[selectedSubject]\<close> and the value of the last computation of
  \<open>filteredQuestions\<close>, \<open>None\<close> before the first render.
\<close>

record session =
  selectedSubject :: "string option"
  currentQuestion :: nat
  answers :: "nat \<rightharpoonup> string list"
  questionStartTime :: "int option"
  timePerQuestion :: "nat \<rightharpoonup> int"
  showResults :: bool
  isReviewMode :: bool
  memo :: "(string option \<times> quiz_question list) option"

definition initial_session :: session where
  "initial_session =
     \<lparr>selectedSubject = None, currentQuestion = 0, answers = Map.empty,
      questionStartTime = None, timePerQuestion = Map.empty,
      showResults = False, isReviewMode = False, memo = None\<rparr>"

subsection \<open>Array helpers\<close>

text \<open>\<open>xs || []\<close> for an array or \<open>undefined\<close>: every array is truthy.\<close>

definition or_empty :: "'a list option \<Rightarrow> 'a list" where
  "or_empty v = (case v of None \<Rightarrow> [] | Some xs \<Rightarrow> xs)"

subsection \<open>Answer handlers\<close>

text \<open>
  \<open>handleAnswer\<close>: records the time spent when \<open>questionStartTime\<close> is truthy (set and
  non-zero), then overwrites the record of the current question with \<open>[answer]\<close>.
  \<open>now\<close> is the value of \<open>Date.now()\<close> at the call.
\<close>

definition handleAnswer :: "int \<Rightarrow> session \<Rightarrow> string \<Rightarrow> session" where
  "handleAnswer now st answer =
     (let st1 = (case questionStartTime st of
                   None \<Rightarrow> st
                 | Some t \<Rightarrow>
                     if t = 0 then st
                     else st\<lparr>timePerQuestion :=
                            (timePerQuestion st)(currentQuestion st \<mapsto> now - t)\<rparr>)
      in st1\<lparr>answers := (answers st)(currentQuestion st \<mapsto> [answer])\<rparr>)"

text \<open>
  The array computed by \<open>handleMultiAnswer\<close>:
  \<open>currentAnswers.includes(answer) ? currentAnswers.filter((a) => a !== answer)
     : [...currentAnswers, answer].sort()\<close>.
\<close>

definition newAnswers :: "string list \<Rightarrow> string \<Rightarrow> string list" where
  "newAnswers currentAnswers answer =
     (if answer \<in> set currentAnswers
      then filter (\<lambda>a. a \<noteq> answer) currentAnswers
      else sort (currentAnswers @ [answer]))"

definition handleMultiAnswer :: "session \<Rightarrow> string \<Rightarrow> session" where
  "handleMultiAnswer st answer =
     (let currentAnswers = or_empty (answers st (currentQuestion st))
      in st\<lparr>answers :=
              (answers st)(currentQuestion st \<mapsto> newAnswers currentAnswers answer)\<rparr>)"

text \<open>The record of the question on screen, as the handlers read it.\<close>

definition current_record :: "session \<Rightarrow> string list" where
  "current_record st = or_empty (answers st (currentQuestion st))"

text \<open>A run of clicks on multiple-choice options, one \<open>handleMultiAnswer\<close> per click.\<close>

definition multi_clicks :: "session \<Rightarrow> string list \<Rightarrow> session" where
  "multi_clicks st opts = foldl handleMultiAnswer st opts"

subsection \<open>Sampling the questions of a subject\<close>

text \<open>
  The callback of \<open>useMemo\<close>. \<open>!selectedSubject\<close> holds for \<open>null\<close> and for the empty
  string. \<open>.sort(() => Math.random() - 0.5)\<close> runs the engine's sort on a fresh array with
  a random comparator: the engine and the random source are the parameter \<open>random_sort\<close>.
\<close>

definition filteredQuestions_body ::
  "(quiz_question list \<Rightarrow> quiz_question list) \<Rightarrow> quiz_question list \<Rightarrow> string option
     \<Rightarrow> quiz_question list" where
  "filteredQuestions_body random_sort bank sel =
     (case sel of
        None \<Rightarrow> []
      | Some s \<Rightarrow>
          if s = [] then []
          else (let subjectQuestions = filter (\<lambda>q. subject q = s) bank
                in take 20 (random_sort subjectQuestions)))"

text \<open>
  One render of \<open>App\<close>, as far as \<open>useMemo(..., [selectedSubject])\<close> goes: the callback
  runs on the first render and whenever the dependency differs from the stored one.
\<close>

definition useMemo_filteredQuestions ::
  "(quiz_question list \<Rightarrow> quiz_question list) \<Rightarrow> quiz_question list \<Rightarrow> session \<Rightarrow> session" where
  "useMemo_filteredQuestions random_sort bank st =
     (let fresh = st\<lparr>memo := Some (selectedSubject st,
                       filteredQuestions_body random_sort bank (selectedSubject st))\<rparr>
      in case memo st of
           None \<Rightarrow> fresh
         | Some (deps, v) \<Rightarrow> if deps = selectedSubject st then st else fresh)"

text \<open>\<open>const questions = filteredQuestions\<close>.\<close>

definition questions :: "session \<Rightarrow> quiz_question list" where
  "questions st = (case memo st of None \<Rightarrow> [] | Some (deps, v) \<Rightarrow> v)"

subsection \<open>Navigation and the event loop\<close>

text \<open>
  \<open>handleNext\<close>; \<open>currentQuestion < questions.length - 1\<close> is false for an empty list.
\<close>

definition handleNext :: "session \<Rightarrow> session" where
  "handleNext st =
     (if Suc (currentQuestion st) < length (questions st)
      then st\<lparr>currentQuestion := currentQuestion st + 1\<rparr>
      else st\<lparr>showResults := True\<rparr>)"

text \<open>
  The \<open>onChange\<close> of the "Go to Question" input; \<open>parsed\<close> is \<open>parseInt(e.target.value)\<close>,
  \<open>None\<close> for \<open>NaN\<close>.
\<close>

definition goToQuestion :: "session \<Rightarrow> int option \<Rightarrow> session" where
  "goToQuestion st parsed =
     (case parsed of
        None \<Rightarrow> st
      | Some n \<Rightarrow>
          (let v = n - 1
           in if 0 \<le> v \<and> v < int (length (questions st))
              then st\<lparr>currentQuestion := nat v\<rparr> else st))"

text \<open>
  What can happen between two renders. \<open>setSelectedSubject\<close> is wired to the subject
  screen only, which \<open>App\<close> returns only when \<open>!selectedSubject\<close>; the other handlers are
  taken as callable at any time. \<open>QuestionTimer\<close> is the effect
  \<open>setQuestionStartTime(Date.now())\<close>.
\<close>

datatype event =
    SelectSubject string
  | Answer int string
  | MultiAnswer string
  | Next
  | GoTo "int option"
  | ReviewMode bool
  | QuestionTimer int

definition falsy :: "string option \<Rightarrow> bool" where
  "falsy v = (case v of None \<Rightarrow> True | Some s \<Rightarrow> s = [])"

fun apply_event :: "session \<Rightarrow> event \<Rightarrow> session" where
  "apply_event st (SelectSubject s) =
     (if falsy (selectedSubject st) then st\<lparr>selectedSubject := Some s\<rparr> else st)"
| "apply_event st (Answer now a) = handleAnswer now st a"
| "apply_event st (MultiAnswer a) = handleMultiAnswer st a"
| "apply_event st Next = handleNext st"
| "apply_event st (GoTo parsed) = goToQuestion st parsed"
| "apply_event st (ReviewMode b) = st\<lparr>isReviewMode := b\<rparr>"
| "apply_event st (QuestionTimer now) = st\<lparr>questionStartTime := Some now\<rparr>"

text \<open>
  An event and the render that follows it; \<open>seed\<close> stands for the random numbers that
  this render would draw.
\<close>

definition step ::
  "(nat \<Rightarrow> quiz_question list \<Rightarrow> quiz_question list) \<Rightarrow> quiz_question list
     \<Rightarrow> session \<Rightarrow> event \<times> nat \<Rightarrow> session" where
  "step random_sort bank st e =
     useMemo_filteredQuestions (random_sort (snd e)) bank (apply_event st (fst e))"

definition run ::
  "(nat \<Rightarrow> quiz_question list \<Rightarrow> quiz_question list) \<Rightarrow> quiz_question list
     \<Rightarrow> session \<Rightarrow> (event \<times> nat) list \<Rightarrow> session" where
  "run random_sort bank st es = foldl (step random_sort bank) st es"

text \<open>The first render, then the choice of subject \<open>s\<close> and the render after it.\<close>

definition start_session ::
  "(nat \<Rightarrow> quiz_question list \<Rightarrow> quiz_question list) \<Rightarrow> quiz_question list
     \<Rightarrow> nat \<Rightarrow> nat \<Rightarrow> string \<Rightarrow> session" where
  "start_session random_sort bank seed0 seed1 s =
     step random_sort bank
       (useMemo_filteredQuestions (random_sort seed0) bank initial_session)
       (SelectSubject s, seed1)"

text \<open>A bank for the examples: five physics questions and two mathematics questions.\<close>

definition sample_bank :: "quiz_question list" where
  "sample_bank =
     [\<lparr>type = ''MCQ'', question = ''p1'', subject = ''phy'', gold = ''A''\<rparr>,
      \<lparr>type = ''MCQ'', question = ''m1'', subject = ''math'', gold = ''B''\<rparr>,
      \<lparr>type = ''MCQ(multiple)'', question = ''p2'', subject = ''phy'', gold = ''AC''\<rparr>,
      \<lparr>type = ''Integer'', question = ''p3'', subject = ''phy'', gold = ''4''\<rparr>,
      \<lparr>type = ''Numeric'', question = ''p4'', subject = ''phy'', gold = ''2.5''\<rparr>,
      \<lparr>type = ''MCQ'', question = ''m2'', subject = ''math'', gold = ''D''\<rparr>,
      \<lparr>type = ''MCQ'', question = ''p5'', subject = ''phy'', gold = ''C''\<rparr>]"

subsection \<open>Scoring\<close>

text \<open>
  \<open>calculateScore\<close>: the body of the \<open>forEach\<close> callback decides whether \<open>score++\<close>
  runs for question \<open>q\<close> at \<open>index\<close>; \<open>userAnswer[0]\<close> of an empty record is
  \<open>undefined\<close>, which is not \<open>===\<close> to any string.
\<close>

definition scores_point :: "(nat \<rightharpoonup> string list) \<Rightarrow> quiz_question \<Rightarrow> nat \<Rightarrow> bool" where
  "scores_point ans q i =
     (let userAnswer = or_empty (ans i)
      in if type q = ''MCQ(multiple)''
         then join [] userAnswer = gold q
         else index userAnswer 0 = Some (gold q))"

fun forEach_score :: "(nat \<rightharpoonup> string list) \<Rightarrow> quiz_question list \<Rightarrow> nat \<Rightarrow> nat \<Rightarrow> nat" where
  "forEach_score ans [] i score = score"
| "forEach_score ans (q # qs) i score =
     forEach_score ans qs (Suc i) (if scores_point ans q i then Suc score else score)"

definition calculateScore :: "session \<Rightarrow> nat" where
  "calculateScore st = forEach_score (answers st) (questions st) 0 0"

text \<open>
  The scoring rule in the specification's words: a multiple-choice question is right when
  the recorded letters, concatenated, are the answer string; any other question is right
  when its recorded answer is the expected string.
\<close>

definition spec_correct :: "quiz_question \<Rightarrow> string list \<Rightarrow> bool" where
  "spec_correct q rec =
     (if type q = ''MCQ(multiple)'' then concat rec = gold q
      else (case rec of [] \<Rightarrow> False | a # _ \<Rightarrow> a = gold q))"

section \<open>The specification's words\<close>

subsection \<open>Table Extractor\<close>

text \<open>
  Candidate rows are the pieces between the two-backslash separators; a candidate survives
  when, trimmed, it is neither empty nor the horizontal-rule marker; the cells of a row
  are its pieces between \<open>&\<close>, each trimmed; the first surviving row is the header and
  the others are the body rows.
\<close>

definition spec_candidate_rows :: "string \<Rightarrow> string list" where
  "spec_candidate_rows content = split content row_separator"

definition spec_surviving_rows :: "string \<Rightarrow> string list" where
  "spec_surviving_rows content =
     filter (\<lambda>row. \<not> (row = [] \<or> row = hline)) (map trim (spec_candidate_rows content))"

definition spec_cells :: "string \<Rightarrow> string list" where
  "spec_cells row = map trim (split row ''&'')"

definition spec_extract :: "string \<Rightarrow> (string list \<times> string list list) option" where
  "spec_extract content =
     (case spec_surviving_rows content of
        [] \<Rightarrow> None
      | header # body \<Rightarrow> Some (spec_cells header, map spec_cells body))"

subsection \<open>Markup Segmenter\<close>

text \<open>
  The segments of a text: what stands between its runs of one or more line feeds.
\<close>

function spec_segments :: "string \<Rightarrow> string list" where
  "spec_segments s =
     (case dropWhile (\<lambda>c. c \<noteq> newline) s of
        [] \<Rightarrow> [s]
      | c # cs \<Rightarrow>
          takeWhile (\<lambda>c. c \<noteq> newline) s
            # spec_segments (dropWhile (\<lambda>c. c = newline) cs))"
  by pat_completeness auto
termination
proof (relation "measure length")
  show "wf (measure length)" by simp
next
  fix s :: string and c cs
  assume "dropWhile (\<lambda>c. c \<noteq> newline) s = c # cs"
  then have "length (c # cs) \<le> length s"
    by (metis length_dropWhile_le)
  moreover have "length (dropWhile (\<lambda>c. c = newline) cs) \<le> length cs"
    by (rule length_dropWhile_le)
  ultimately show "(dropWhile (\<lambda>c. c = newline) cs, s) \<in> measure length"
    by simp
qed

declare spec_segments.simps [simp del]

text \<open>
  The substring between the tabular markers of a segment: from the end of the first begin
  marker to the start of the first end marker after it; \<open>None\<close> when either is missing.
\<close>

definition spec_table_content :: "string \<Rightarrow> string option" where
  "spec_table_content seg =
     (case indexOf seg begin_tabular of
        None \<Rightarrow> None
      | Some i \<Rightarrow>
          (case indexOf (drop (i + length begin_tabular) seg) end_tabular of
             None \<Rightarrow> None
           | Some j \<Rightarrow> Some (take j (drop (i + length begin_tabular) seg))))"

text \<open>
  The blocks of the specification as nodes: a paragraph holds its text with the inline
  math resolved, a display-math block the typesetter's output for the trimmed expression
  (the raw expression if the typesetter throws), a table block the tabular content.
\<close>

definition spec_paragraph :: "typesetter \<Rightarrow> string \<Rightarrow> node" where
  "spec_paragraph katex seg = P (renderMathInline katex seg)"

definition spec_display_math :: "typesetter \<Rightarrow> string \<Rightarrow> node" where
  "spec_display_math katex body =
     (case katex True (trim body) of
        Some html \<Rightarrow> MathDiv html
      | None \<Rightarrow> PlainDiv body)"

text \<open>
  Rules 3 to 5 of the segmenter on one segment. A segment with both the center marker
  and the tabular-begin marker is a table when a non-empty tabular content can be cut
  out of it, and raw text otherwise.
\<close>

definition spec_segment_blocks :: "typesetter \<Rightarrow> string \<Rightarrow> node list" where
  "spec_segment_blocks katex seg =
     (if js_includes seg begin_center \<and> js_includes seg begin_tabular
      then (case spec_table_content seg of
              None \<Rightarrow> [Str seg]
            | Some c \<Rightarrow> if c = [] then [Str seg] else [TableEl c])
      else if trim seg = begin_center \<or> trim seg = end_center then []
      else [spec_paragraph katex seg])"

text \<open>Rules 2 to 5 on a text: every segment, in order.\<close>

definition spec_remaining_rules :: "typesetter \<Rightarrow> string \<Rightarrow> node list" where
  "spec_remaining_rules katex part = concat (map (spec_segment_blocks katex) (spec_segments part))"

text \<open>Paragraph formation alone: one paragraph per segment that is not blank.\<close>

definition spec_paragraphs :: "typesetter \<Rightarrow> string \<Rightarrow> node list" where
  "spec_paragraphs katex part =
     map (spec_paragraph katex) (filter (\<lambda>seg. trim seg \<noteq> []) (spec_segments part))"

text \<open>Rules 2 to 5 on a text, a blank segment giving no block.\<close>

definition spec_nonblank_rules :: "typesetter \<Rightarrow> string \<Rightarrow> node list" where
  "spec_nonblank_rules katex part =
     concat (map (spec_segment_blocks katex)
               (filter (\<lambda>seg. trim seg \<noteq> []) (spec_segments part)))"

text \<open>
  Rule 1: cut the text at its display-math regions. A region runs from the first opening
  marker to the first closing marker after it; \<open>inside\<close> gives the block of a region's
  interior and \<open>outside\<close> the blocks of the text around the regions.
\<close>

function spec_carve :: "(string \<Rightarrow> node list) \<Rightarrow> (string \<Rightarrow> node) \<Rightarrow> string \<Rightarrow> node list" where
  "spec_carve outside inside s =
     (case indexOf s display_open of
        None \<Rightarrow> outside s
      | Some i \<Rightarrow>
          (case indexOf (drop (i + 2) s) display_close of
             None \<Rightarrow> outside s
           | Some j \<Rightarrow>
               outside (take i s) @ [inside (take j (drop (i + 2) s))]
                 @ spec_carve outside inside (drop (i + 2 + j + 2) s)))"
  by pat_completeness auto
termination
proof (relation "measure (\<lambda>(outside, inside, s). length s)")
  show "wf (measure (\<lambda>(outside, inside, s). length s))" by simp
next
  fix outside :: "string \<Rightarrow> node list" and inside :: "string \<Rightarrow> node"
    and s :: string and i j
  assume "indexOf s display_open = Some i"
  then have "s \<noteq> []" by (cases s) simp_all
  then show "((outside, inside, drop (i + 2 + j + 2) s), (outside, inside, s))
               \<in> measure (\<lambda>(outside, inside, s). length s)"
    by simp
qed

declare spec_carve.simps [simp del]

section \<open>Properties of the string builtins\<close>

lemma indexOf_le: "indexOf s p = Some j \<Longrightarrow> j + length p \<le> length s"
proof (induction s arbitrary: j)
  case Nil
  then show ?case by (simp split: if_splits)
next
  case (Cons c cs)
  show ?case
  proof (cases "startsWith (c # cs) p")
    case True
    then have "length p = min (length p) (length (c # cs))"
      unfolding startsWith_def by (metis length_take min.commute)
    with True Cons.prems show ?thesis by simp
  next
    case False
    with Cons.prems obtain k where "indexOf cs p = Some k" "j = Suc k" by auto
    with Cons.IH show ?thesis by fastforce
  qed
qed

lemma startsWith_Nil [simp]: "startsWith s []"
  by (simp add: startsWith_def)

lemma startsWith_append: "startsWith (p @ s) p"
  by (simp add: startsWith_def)

lemma startsWith_decomp: "startsWith s p \<Longrightarrow> s = p @ drop (length p) s"
  unfolding startsWith_def by (metis append_take_drop_id)

lemma startsWith_length: "startsWith s p \<Longrightarrow> length p \<le> length s"
proof -
  assume "startsWith s p"
  then have "length (take (length p) s) = length p" by (simp add: startsWith_def)
  then show ?thesis by simp
qed

lemma indexOf_startsWith: "indexOf s p = Some j \<Longrightarrow> startsWith (drop j s) p"
proof (induction s arbitrary: j)
  case Nil
  then show ?case by (simp split: if_splits)
next
  case (Cons c cs)
  then show ?case by (cases "startsWith (c # cs) p") auto
qed

lemma indexOf_first: "indexOf s p = Some j \<Longrightarrow> k < j \<Longrightarrow> \<not> startsWith (drop k s) p"
proof (induction s arbitrary: j k)
  case Nil
  then show ?case by (simp split: if_splits)
next
  case (Cons c cs)
  show ?case
  proof (cases "startsWith (c # cs) p")
    case True
    with Cons.prems show ?thesis by simp
  next
    case False
    with Cons.prems obtain j' where j': "indexOf cs p = Some j'" "j = Suc j'" by auto
    show ?thesis
    proof (cases k)
      case 0
      with False show ?thesis by simp
    next
      case (Suc k')
      with Cons.prems j' have "k' < j'" by simp
      with Cons.IH j' Suc show ?thesis by simp
    qed
  qed
qed

lemma indexOf_None: "indexOf s p = None \<Longrightarrow> k \<le> length s \<Longrightarrow> \<not> startsWith (drop k s) p"
proof (induction s arbitrary: k)
  case Nil
  then show ?case by (simp add: startsWith_def split: if_splits)
next
  case (Cons c cs)
  from Cons.prems have ns: "\<not> startsWith (c # cs) p" and n: "indexOf cs p = None"
    by (auto split: if_splits)
  show ?case
  proof (cases k)
    case 0
    with ns show ?thesis by simp
  next
    case (Suc k')
    with Cons.prems Cons.IH n show ?thesis by simp
  qed
qed

lemma indexOf_found:
  "startsWith (drop k s) p \<Longrightarrow> k \<le> length s \<Longrightarrow> \<exists>j\<le>k. indexOf s p = Some j"
proof (cases "indexOf s p")
  case None
  assume "startsWith (drop k s) p" "k \<le> length s"
  with indexOf_None [OF None] show ?thesis by blast
next
  case (Some j)
  assume "startsWith (drop k s) p" "k \<le> length s"
  with indexOf_first [OF Some, of k] have "j \<le> k" by (meson not_le)
  with Some show ?thesis by simp
qed

lemma indexOf_append_found: "\<exists>j\<le>length a. indexOf (a @ p @ b) p = Some j"
  by (rule indexOf_found) (simp_all add: startsWith_append)

lemma indexOf_split3:
  assumes "indexOf s p = Some j"
  shows "s = take j s @ p @ drop (j + length p) s"
proof -
  have "drop j s = p @ drop (length p) (drop j s)"
    using indexOf_startsWith [OF assms] by (rule startsWith_decomp)
  then have "take j s @ p @ drop (j + length p) s = take j s @ drop j s"
    by (simp add: add.commute)
  then show ?thesis by simp
qed

lemma indexOf_take_None:
  assumes "indexOf s p = Some j" "p \<noteq> []"
  shows "indexOf (take j s) p = None"
proof (rule ccontr)
  assume "indexOf (take j s) p \<noteq> None"
  then obtain k where k: "indexOf (take j s) p = Some k" by auto
  from indexOf_le [OF k] indexOf_le [OF assms(1)] have kb: "k + length p \<le> j" by simp
  with assms(2) have "k < j" by (cases p) simp_all
  have "take (length p) (drop k (take j s)) = p"
    using indexOf_startsWith [OF k] by (simp add: startsWith_def)
  moreover have "take (length p) (drop k (take j s)) = take (length p) (drop k s)"
    using kb by (simp add: drop_take min_def)
  ultimately have "startsWith (drop k s) p" by (simp add: startsWith_def)
  with indexOf_first [OF assms(1) \<open>k < j\<close>] show False by simp
qed

lemma split_nonempty: "split s sep \<noteq> [] \<or> (sep = [] \<and> s = [])"
  by (subst split.simps) (simp split: option.splits)

lemma join_Cons: "rest \<noteq> [] \<Longrightarrow> join sep (x # rest) = x @ sep @ join sep rest"
  by (cases rest) simp_all

lemma join_split: "sep \<noteq> [] \<Longrightarrow> join sep (split s sep) = s"
proof (induction s sep rule: split.induct)
  case (1 s sep)
  show ?case
  proof (cases "indexOf s sep")
    case None
    with 1 show ?thesis by (subst split.simps) simp
  next
    case (Some j)
    have ne: "split (drop (j + length sep) s) sep \<noteq> []"
      using split_nonempty [of "drop (j + length sep) s" sep] "1.prems" by simp
    have "join sep (split s sep)
        = take j s @ sep @ join sep (split (drop (j + length sep) s) sep)"
      using "1.prems" Some ne by (subst split.simps) (simp add: join_Cons)
    also have "\<dots> = take j s @ sep @ drop (j + length sep) s"
      using "1.IH" [OF "1.prems" Some] "1.prems" by simp
    also have "\<dots> = s"
      using indexOf_split3 [OF Some] by simp
    finally show ?thesis .
  qed
qed

lemma split_parts_free:
  "sep \<noteq> [] \<Longrightarrow> p \<in> set (split s sep) \<Longrightarrow> \<not> js_includes p sep"
proof (induction s sep rule: split.induct)
  case (1 s sep)
  show ?case
  proof (cases "indexOf s sep")
    case None
    with 1 show ?thesis by (subst (asm) split.simps) (simp add: js_includes_def)
  next
    case (Some j)
    with "1.prems" have "p = take j s \<or> p \<in> set (split (drop (j + length sep) s) sep)"
      by (subst (asm) split.simps) simp
    then show ?thesis
    proof
      assume "p = take j s"
      with indexOf_take_None [OF Some "1.prems"(1)] show ?thesis
        by (simp add: js_includes_def)
    next
      assume "p \<in> set (split (drop (j + length sep) s) sep)"
      with "1.IH" [OF "1.prems"(1) Some "1.prems"(1)] show ?thesis .
    qed
  qed
qed

lemma js_includes_char: "js_includes s [c] = (c \<in> set s)"
  by (induction s) (auto simp: js_includes_def startsWith_def)

lemma map_indexed_length [simp]: "length (map_indexed f k xs) = length xs"
  by (induction xs arbitrary: k) simp_all

lemma map_indexed_nth: "i < length xs \<Longrightarrow> map_indexed f k xs ! i = f (xs ! i) (k + i)"
proof (induction xs arbitrary: k i)
  case Nil
  then show ?case by simp
next
  case (Cons x xs)
  then show ?case by (cases i) simp_all
qed

lemma trim_ends:
  "trim s = [] \<or> (\<not> is_space (hd (trim s)) \<and> \<not> is_space (last (trim s)))"
proof (cases "trim s = []")
  case True
  then show ?thesis by simp
next
  case False
  define t where "t = dropWhile is_space s"
  define u where "u = dropWhile is_space (rev t)"
  have tr: "trim s = rev u" by (simp add: trim_def t_def u_def)
  with False have une: "u \<noteq> []" by simp
  then have hu: "\<not> is_space (hd u)"
    unfolding u_def by (rule hd_dropWhile)
  from une have tne: "t \<noteq> []" unfolding u_def by auto
  then have ht: "\<not> is_space (hd t)"
    unfolding t_def by (rule hd_dropWhile)
  obtain pre where "rev t = pre @ u"
    unfolding u_def by (metis takeWhile_dropWhile_id)
  with une have "last u = last (rev t)" by simp
  with tne have "last u = hd t" by (simp add: last_rev)
  with ht hu une show ?thesis by (simp add: tr hd_rev last_rev)
qed

lemma dropWhile_hd_id: "xs \<noteq> [] \<Longrightarrow> \<not> pr (hd xs) \<Longrightarrow> dropWhile pr xs = xs"
  by (cases xs) simp_all

lemma trim_idem: "trim (trim s) = trim s"
proof (cases "trim s = []")
  case True
  have "trim [] = []" by (simp add: trim_def)
  with True show ?thesis by simp
next
  case False
  with trim_ends [of s] have e: "\<not> is_space (hd (trim s))" "\<not> is_space (last (trim s))"
    by simp_all
  from False e(1) have a: "dropWhile is_space (trim s) = trim s"
    by (rule dropWhile_hd_id)
  have "hd (rev (trim s)) = last (trim s)" by (simp add: hd_rev)
  with False e(2) have b: "dropWhile is_space (rev (trim s)) = rev (trim s)"
    by (intro dropWhile_hd_id) simp_all
  show ?thesis
    by (subst (1) trim_def) (simp add: a b)
qed

lemma Table_rows_Nil: "Table_rows content = [] \<Longrightarrow> Table katex content = Inl TypeError"
  by (simp add: Table_def index_def)

lemma Table_rows_Cons:
  "Table_rows content = header # body \<Longrightarrow>
   Table katex content =
     Inr \<lparr>thead = map (renderMathInline katex) (map trim (split header ''&'')),
          tbody = map (\<lambda>row. map (renderMathInline katex) (map trim (split row ''&''))) body\<rparr>"
  by (simp add: Table_def index_def Let_def comp_def)

section \<open>Properties of the answer records\<close>

lemma join_no_sep: "sep = [] \<Longrightarrow> join sep xs = concat xs"
  by (induction sep xs rule: join.induct) simp_all

lemma join_empty_sep: "join [] xs = concat xs"
  by (simp add: join_no_sep)

lemma newAnswers_sorted_distinct:
  assumes "sorted r" "distinct r"
  shows "sorted (newAnswers r a) \<and> distinct (newAnswers r a)"
  using assms by (simp add: newAnswers_def sorted_wrt_filter)

lemma newAnswers_set:
  "set (newAnswers r a) = (if a \<in> set r then set r - {a} else insert a (set r))"
  by (auto simp: newAnswers_def)

lemma current_record_handleMultiAnswer:
  "current_record (handleMultiAnswer st a) = newAnswers (current_record st) a"
  by (simp add: current_record_def handleMultiAnswer_def Let_def or_empty_def)

lemma currentQuestion_multi_clicks:
  "currentQuestion (multi_clicks st opts) = currentQuestion st"
  unfolding multi_clicks_def
  by (induction opts arbitrary: st) (simp_all add: handleMultiAnswer_def Let_def)

lemma current_record_multi_clicks:
  "current_record (multi_clicks st opts) = foldl newAnswers (current_record st) opts"
  unfolding multi_clicks_def
  by (induction opts arbitrary: st) (simp_all add: current_record_handleMultiAnswer)

lemma foldl_newAnswers_sorted_distinct:
  "sorted r \<Longrightarrow> distinct r \<Longrightarrow>
     sorted (foldl newAnswers r opts) \<and> distinct (foldl newAnswers r opts)"
proof (induction opts arbitrary: r)
  case Nil
  then show ?case by simp
next
  case (Cons a opts)
  have "sorted (newAnswers r a) \<and> distinct (newAnswers r a)"
    using Cons.prems by (rule newAnswers_sorted_distinct)
  then show ?case using Cons.IH by simp
qed

lemma multi_clicks_sorted_distinct:
  assumes "current_record st = []"
  shows "sorted (current_record (multi_clicks st opts))"
    and "distinct (current_record (multi_clicks st opts))"
proof -
  from assms have "sorted (current_record st)" "distinct (current_record st)" by simp_all
  then have "sorted (foldl newAnswers (current_record st) opts)
      \<and> distinct (foldl newAnswers (current_record st) opts)"
    by (rule foldl_newAnswers_sorted_distinct)
  then show "sorted (current_record (multi_clicks st opts))"
    and "distinct (current_record (multi_clicks st opts))"
    by (simp_all add: current_record_multi_clicks)
qed

lemma forEach_score_count:
  "forEach_score ans qs i score =
     score + length (filter (\<lambda>k. scores_point ans (qs ! k) (i + k)) [0..<length qs])"
proof (induction qs arbitrary: i score)
  case Nil
  then show ?case by simp
next
  case (Cons q qs)
  have split: "[0..<length (q # qs)] = 0 # map Suc [0..<length qs]"
    by (simp add: upt_conv_Cons map_Suc_upt del: upt_Suc)
  show ?case
    unfolding split by (simp add: Cons.IH filter_map comp_def)
qed

lemma scores_point_spec:
  "scores_point ans q i = spec_correct q (or_empty (ans i))"
  by (cases "or_empty (ans i)")
     (simp_all add: scores_point_def spec_correct_def Let_def index_def join_empty_sep)

lemma answers_current_multi_clicks:
  "or_empty (answers (multi_clicks st opts) (currentQuestion st)) = current_record (multi_clicks st opts)"
  by (simp add: current_record_def currentQuestion_multi_clicks)

lemma current_record_initial: "current_record initial_session = []"
  by (simp add: current_record_def initial_session_def or_empty_def)

section \<open>Scoring and the multiple-choice record\<close>

text \<open>
  C6. \<open>calculateScore\<close> counts the questions of the session that score a point. A
  question of type \<open>MCQ(multiple)\<close> scores when the recorded letters, joined into one
  string, are the \<open>gold\<close> string: a comparison of strings, so the record \<open>A, C\<close> does not
  score against \<open>CA\<close>. A question of any other type scores when its single recorded
  answer is the \<open>gold\<close> string, and does not score without a record; with \<open>gold = B\<close> the
  record \<open>[B]\<close> scores and \<open>[A]\<close> does not.
\<close>

theorem calculateScore_rule:
  "calculateScore st
     = length (filter (\<lambda>i. scores_point (answers st) (questions st ! i) i)
                 [0..<length (questions st)])
   \<and> (type q = ''MCQ(multiple)'' \<longrightarrow>
        scores_point ans q i = (concat (or_empty (ans i)) = gold q))
   \<and> (type q \<noteq> ''MCQ(multiple)'' \<and> ans i = Some [a] \<longrightarrow>
        scores_point ans q i = (a = gold q))
   \<and> (type q \<noteq> ''MCQ(multiple)'' \<and> ans i = None \<longrightarrow> \<not> scores_point ans q i)
   \<and> (type q \<noteq> ''MCQ(multiple)'' \<and> gold q = ''B'' \<longrightarrow>
        scores_point (Map.empty(i \<mapsto> [''B''])) q i
        \<and> \<not> scores_point (Map.empty(i \<mapsto> [''A''])) q i)
   \<and> (type q = ''MCQ(multiple)'' \<and> gold q = ''CA'' \<longrightarrow>
        \<not> scores_point (Map.empty(i \<mapsto> [''A'', ''C''])) q i)"
proof -
  have "calculateScore st
     = length (filter (\<lambda>i. scores_point (answers st) (questions st ! i) i)
                 [0..<length (questions st)])"
    by (simp add: calculateScore_def forEach_score_count)
  then show ?thesis
    by (simp add: scores_point_spec spec_correct_def or_empty_def)
qed

theorem calculateScore_rule_witness:
  "type \<lparr>type = ''MCQ'', question = ''q'', subject = ''phy'', gold = ''B''\<rparr> \<noteq> ''MCQ(multiple)''
   \<and> scores_point (Map.empty(0 \<mapsto> [''B'']))
        \<lparr>type = ''MCQ'', question = ''q'', subject = ''phy'', gold = ''B''\<rparr> 0
   \<and> \<not> scores_point (Map.empty(0 \<mapsto> [''A'']))
        \<lparr>type = ''MCQ'', question = ''q'', subject = ''phy'', gold = ''B''\<rparr> 0"
proof -
  let ?q = "\<lparr>type = ''MCQ'', question = ''q'', subject = ''phy'', gold = ''B''\<rparr>"
  have h: "type ?q \<noteq> ''MCQ(multiple)'' \<and> gold ?q = ''B''" by simp
  show ?thesis
    using h calculateScore_rule [of initial_session ?q Map.empty 0 "''B''"]
    by blast
qed

text \<open>
  C10. From an empty record, after any run of clicks on multiple-choice options the
  record of the question is sorted and has no duplicates, and a click on an option that
  is in the record removes that one entry and leaves the others where they were.
\<close>

theorem multi_record_sorted_distinct:
  assumes "current_record st = []"
  shows "sorted (current_record (multi_clicks st opts))
       \<and> distinct (current_record (multi_clicks st opts))
       \<and> (a \<in> set (current_record (multi_clicks st opts)) \<longrightarrow>
            current_record (handleMultiAnswer (multi_clicks st opts) a)
              = remove1 a (current_record (multi_clicks st opts)))"
proof -
  let ?r = "current_record (multi_clicks st opts)"
  have sd: "sorted ?r" "distinct ?r"
    using assms by (rule multi_clicks_sorted_distinct)+
  have "a \<in> set ?r \<longrightarrow> newAnswers ?r a = remove1 a ?r"
    using sd(2) by (simp add: newAnswers_def distinct_remove1_removeAll removeAll_filter_not_eq)
       (metis (mono_tags, lifting) filter_cong)
  then show ?thesis
    using sd by (simp add: current_record_handleMultiAnswer)
qed

theorem multi_record_sorted_distinct_witness:
  "current_record initial_session = []
   \<and> current_record (multi_clicks initial_session [''C'', ''A'', ''D'']) = [''A'', ''C'', ''D'']
   \<and> sorted [''A'', ''C'', ''D''] \<and> distinct [''A'', ''C'', ''D'']
   \<and> ''C'' \<in> set [''A'', ''C'', ''D'']
   \<and> current_record (handleMultiAnswer (multi_clicks initial_session [''C'', ''A'', ''D'']) ''C'')
        = [''A'', ''D'']"
proof -
  have h: "current_record initial_session = []"
    by (rule current_record_initial)
  have r: "current_record (multi_clicks initial_session [''C'', ''A'', ''D'']) = [''A'', ''C'', ''D'']"
    by (simp add: current_record_multi_clicks current_record_initial newAnswers_def)
  show ?thesis
    using h r multi_record_sorted_distinct [OF h, of "[''C'', ''A'', ''D'']" "''C''"]
    by simp
qed

text \<open>
  C7. From an empty record, two runs of clicks on multiple-choice options that leave the
  same set of options selected leave the same record, hence the same scoring outcome.
  \<open>C\<close> then \<open>A\<close>, and \<open>A\<close> then \<open>C\<close>, both leave \<open>[A, C]\<close>, and both score against
  \<open>gold = AC\<close>.
\<close>

theorem multi_answer_order_independent:
  assumes "current_record st = []"
    and "set (current_record (multi_clicks st xs)) = set (current_record (multi_clicks st ys))"
  shows "current_record (multi_clicks st xs) = current_record (multi_clicks st ys)
       \<and> scores_point (answers (multi_clicks st xs)) q (currentQuestion st)
           = scores_point (answers (multi_clicks st ys)) q (currentQuestion st)
       \<and> current_record (multi_clicks st [''C'', ''A'']) = [''A'', ''C'']
       \<and> current_record (multi_clicks st [''A'', ''C'']) = [''A'', ''C'']
       \<and> (type q = ''MCQ(multiple)'' \<and> gold q = ''AC'' \<longrightarrow>
            scores_point (answers (multi_clicks st [''C'', ''A''])) q (currentQuestion st)
          \<and> scores_point (answers (multi_clicks st [''A'', ''C''])) q (currentQuestion st))"
proof -
  have eq: "current_record (multi_clicks st xs) = current_record (multi_clicks st ys)"
    using multi_clicks_sorted_distinct [OF assms(1)] assms(2)
    by (intro sorted_distinct_set_unique) simp_all
  note empty = assms(1)
  have ca: "current_record (multi_clicks st [''C'', ''A'']) = [''A'', ''C'']"
    by (simp add: current_record_multi_clicks empty newAnswers_def)
  have ac: "current_record (multi_clicks st [''A'', ''C'']) = [''A'', ''C'']"
    by (simp add: current_record_multi_clicks empty newAnswers_def)
  have sp: "scores_point (answers (multi_clicks st zs)) q (currentQuestion st)
      = spec_correct q (current_record (multi_clicks st zs))" for zs
    by (simp add: scores_point_spec answers_current_multi_clicks)
  show ?thesis
    by (simp add: sp eq ca ac spec_correct_def)
qed

theorem multi_answer_order_independent_witness:
  "current_record (multi_clicks initial_session [''C'', ''A'', ''B'', ''B''])
     = current_record (multi_clicks initial_session [''A'', ''D'', ''C'', ''D''])
   \<and> current_record (multi_clicks initial_session [''C'', ''A'', ''B'', ''B'']) = [''A'', ''C'']"
proof -
  have h: "current_record initial_session = []"
    by (rule current_record_initial)
  have l: "current_record (multi_clicks initial_session [''C'', ''A'', ''B'', ''B'']) = [''A'', ''C'']"
    by (simp add: current_record_multi_clicks current_record_initial newAnswers_def)
  have r: "set (current_record (multi_clicks initial_session [''A'', ''D'', ''C'', ''D''])) = {''A'', ''C''}"
    by (simp add: current_record_multi_clicks current_record_initial newAnswers_def)
  have s: "set (current_record (multi_clicks initial_session [''C'', ''A'', ''B'', ''B'']))
     = set (current_record (multi_clicks initial_session [''A'', ''D'', ''C'', ''D'']))"
    using l r by auto
  show ?thesis
    using multi_answer_order_independent [OF h s] l by simp
qed

section \<open>Inline math and the table extractor\<close>

lemma renderMathInline_nth:
  "i < length (split text ''$'') \<Longrightarrow>
     renderMathInline katex text ! i = inline_part katex (split text ''$'' ! i) i"
  by (simp add: renderMathInline_def map_indexed_nth)

lemma renderMathInline_length:
  "length (renderMathInline katex text) = length (split text ''$'')"
  by (simp add: renderMathInline_def)

lemma split_dollar_example: "split ''a $x^2$ b'' ''$'' = [''a '', ''x^2'', '' b'']"
  by (simp add: split.simps startsWith_def)

text \<open>
  C3. \<open>renderMathInline\<close> splits the string at every \<open>$\<close>: the fragments, joined by
  \<open>$\<close>, are the string, and no fragment holds a \<open>$\<close>. It returns one child per
  fragment: a fragment at an odd index (from 0) goes to the typesetter in inline mode,
  a fragment at an even index stays the literal string. For \<open>a $x^2$ b\<close> the children
  are the literal \<open>a \<close>, the typesetter's output for \<open>x^2\<close>, and the literal \<open> b\<close>.
\<close>

theorem renderMathInline_fragments:
  "join ''$'' (split text ''$'') = text
   \<and> (\<forall>p \<in> set (split text ''$''). CHR ''$'' \<notin> set p)
   \<and> length (renderMathInline katex text) = length (split text ''$'')
   \<and> (\<forall>i < length (split text ''$'').
         renderMathInline katex text ! i
           = (if odd i
              then (case katex False (split text ''$'' ! i) of
                      Some html \<Rightarrow> KatexSpan html
                    | None \<Rightarrow> PlainSpan (split text ''$'' ! i))
              else Text (split text ''$'' ! i)))
   \<and> renderMathInline katex ''a $x^2$ b''
       = [Text ''a '',
          (case katex False ''x^2'' of
             Some html \<Rightarrow> KatexSpan html
           | None \<Rightarrow> PlainSpan ''x^2''),
          Text '' b'']"
proof -
  have a: "join ''$'' (split text ''$'') = text"
    by (rule join_split) simp
  have b: "\<forall>p \<in> set (split text ''$''). CHR ''$'' \<notin> set p"
    using split_parts_free [of "''$''" _ "text"] by (simp add: js_includes_char)
  have c: "\<forall>i < length (split text ''$'').
         renderMathInline katex text ! i
           = (if odd i
              then (case katex False (split text ''$'' ! i) of
                      Some html \<Rightarrow> KatexSpan html
                    | None \<Rightarrow> PlainSpan (split text ''$'' ! i))
              else Text (split text ''$'' ! i))"
    by (simp add: renderMathInline_nth inline_part_def odd_iff_mod_2_eq_one)
  have d: "renderMathInline katex ''a $x^2$ b''
       = [Text ''a '',
          (case katex False ''x^2'' of
             Some html \<Rightarrow> KatexSpan html
           | None \<Rightarrow> PlainSpan ''x^2''),
          Text '' b'']"
    by (simp add: renderMathInline_def split_dollar_example inline_part_def)
  from a b c d renderMathInline_length show ?thesis by blast
qed

theorem renderMathInline_fragments_witness:
  "(1::nat) < length (split ''a $x^2$ b'' ''$'')
   \<and> split ''a $x^2$ b'' ''$'' ! 1 = ''x^2''
   \<and> renderMathInline katex_echo ''a $x^2$ b'' ! 1 = KatexSpan ''x^2''
   \<and> renderMathInline katex_echo ''a $x^2$ b'' ! 0 = Text ''a ''
   \<and> renderMathInline katex_echo ''a $x^2$ b'' ! 2 = Text '' b''"
proof -
  have h: "(1::nat) < length (split ''a $x^2$ b'' ''$'')"
       "(0::nat) < length (split ''a $x^2$ b'' ''$'')"
       "(2::nat) < length (split ''a $x^2$ b'' ''$'')"
    by (simp_all add: split_dollar_example)
  have e: "katex_echo False ''x^2'' = Some ''x^2''"
    by (simp add: katex_echo_def)
  from renderMathInline_fragments [of "''a $x^2$ b''" katex_echo]
  have "\<forall>i < length (split ''a $x^2$ b'' ''$'').
         renderMathInline katex_echo ''a $x^2$ b'' ! i
           = (if odd i
              then (case katex_echo False (split ''a $x^2$ b'' ''$'' ! i) of
                      Some html \<Rightarrow> KatexSpan html
                    | None \<Rightarrow> PlainSpan (split ''a $x^2$ b'' ''$'' ! i))
              else Text (split ''a $x^2$ b'' ''$'' ! i))"
    by blast
  with h e show ?thesis
    by (simp add: split_dollar_example)
qed

lemma set_trim: "set (trim s) \<subseteq> set s"
proof -
  have "set (trim s) = set (dropWhile is_space (rev (dropWhile is_space s)))"
    by (simp add: trim_def)
  also have "\<dots> \<subseteq> set (rev (dropWhile is_space s))"
    by (meson set_dropWhileD subsetI)
  also have "\<dots> \<subseteq> set s"
    by (auto dest: set_dropWhileD)
  finally show ?thesis .
qed

lemma spec_surviving_rows_eq: "spec_surviving_rows content = Table_rows content"
  by (auto simp: spec_surviving_rows_def spec_candidate_rows_def Table_rows_def
      intro: filter_cong)

lemma spec_cells_trimmed:
  assumes "cell \<in> set (spec_cells row)"
  shows "trim cell = cell" and "CHR ''&'' \<notin> set cell"
proof -
  from assms obtain p where p: "p \<in> set (split row ''&'')" "cell = trim p"
    by (auto simp: spec_cells_def)
  then show "trim cell = cell" by (simp add: trim_idem)
  from split_parts_free [of "''&''" p row] p(1) have "CHR ''&'' \<notin> set p"
    by (simp add: js_includes_char)
  with set_trim [of p] p(2) show "CHR ''&'' \<notin> set cell" by auto
qed

text \<open>
  C4. \<open>Table\<close> computes what the specification describes: with no surviving row the
  access to the header row throws; otherwise the header cells are the trimmed
  \<open>&\<close>-pieces of the first surviving row and the body rows those of the others, in
  order, each cell then rendered inline. Nothing is lost by the splits (the pieces joined
  by the separator give the text back), and every cell is trimmed and free of \<open>&\<close>.
\<close>

theorem Table_header_and_body:
  "Table katex content =
     (case spec_extract content of
        None \<Rightarrow> Inl TypeError
      | Some (headerCells, bodyRows) \<Rightarrow>
          Inr \<lparr>thead = map (renderMathInline katex) headerCells,
               tbody = map (map (renderMathInline katex)) bodyRows\<rparr>)
   \<and> join row_separator (spec_candidate_rows content) = content
   \<and> (\<forall>row \<in> set (spec_surviving_rows content).
         join ''&'' (split row ''&'') = row
         \<and> (\<forall>cell \<in> set (spec_cells row). trim cell = cell \<and> CHR ''&'' \<notin> set cell))"
proof -
  have a: "Table katex content =
     (case spec_extract content of
        None \<Rightarrow> Inl TypeError
      | Some (headerCells, bodyRows) \<Rightarrow>
          Inr \<lparr>thead = map (renderMathInline katex) headerCells,
               tbody = map (map (renderMathInline katex)) bodyRows\<rparr>)"
  proof (cases "Table_rows content")
    case Nil
    then show ?thesis
      by (simp add: Table_rows_Nil spec_extract_def spec_surviving_rows_eq)
  next
    case (Cons header body)
    then show ?thesis
      by (simp add: Table_rows_Cons spec_extract_def spec_surviving_rows_eq spec_cells_def
          comp_def)
  qed
  have b: "join row_separator (spec_candidate_rows content) = content"
    unfolding spec_candidate_rows_def by (rule join_split) simp
  have c: "join ''&'' (split row ''&'') = row" for row
    by (rule join_split) simp
  from a b c spec_cells_trimmed show ?thesis by blast
qed

theorem Table_header_and_body_witness:
  "spec_extract ('' a & b '' @ row_separator @ hline @ row_separator @ ''1 & $x$'')
     = Some ([''a'', ''b''], [[''1'', ''$x$'']])
   \<and> Table katex_echo ('' a & b '' @ row_separator @ hline @ row_separator @ ''1 & $x$'')
     = Inr \<lparr>thead = [[Text ''a''], [Text ''b'']],
            tbody = [[[Text ''1''], [Text '''', KatexSpan ''x'', Text '''']]]\<rparr>"
proof -
  let ?c = "'' a & b '' @ row_separator @ hline @ row_separator @ ''1 & $x$''"
  have e: "spec_extract ?c = Some ([''a'', ''b''], [[''1'', ''$x$'']])"
    by (simp add: spec_extract_def spec_surviving_rows_def spec_candidate_rows_def
        spec_cells_def split.simps startsWith_def trim_def is_space_def)
  have r: "renderMathInline katex_echo ''a'' = [Text ''a'']"
    "renderMathInline katex_echo ''b'' = [Text ''b'']"
    "renderMathInline katex_echo ''1'' = [Text ''1'']"
    "renderMathInline katex_echo ''$x$'' = [Text '''', KatexSpan ''x'', Text '''']"
    by (simp_all add: renderMathInline_def split.simps startsWith_def inline_part_def
        katex_echo_def)
  from Table_header_and_body [of katex_echo ?c]
  have "Table katex_echo ?c =
     (case spec_extract ?c of
        None \<Rightarrow> Inl TypeError
      | Some (headerCells, bodyRows) \<Rightarrow>
          Inr \<lparr>thead = map (renderMathInline katex_echo) headerCells,
               tbody = map (map (renderMathInline katex_echo)) bodyRows\<rparr>)"
    by blast
  with e r show ?thesis by simp
qed

text \<open>
  C5. On the content \<open>\hline\<close>, which \<open>renderMath\<close> hands to \<open>Table\<close> for the segment
  \<open>\begin{center}\begin{tabular}\hline\end{tabular}\end{center}\<close>, no row survives and
  \<open>Table\<close> throws the \<open>TypeError\<close> of reading \<open>split\<close> from \<open>undefined\<close>: there is no
  check for an empty table.
\<close>

theorem Table_without_rows_throws:
  "Table_rows hline = []
   \<and> Table katex hline = Inl TypeError
   \<and> blocks (renderMath katex (begin_center @ begin_tabular @ hline @ end_tabular @ end_center))
       = [TableEl hline]"
proof -
  have a: "Table_rows hline = []"
    by (simp add: Table_rows_def split.simps startsWith_def trim_def is_space_def)
  have b: "blocks (renderMath katex
             (begin_center @ begin_tabular @ hline @ end_tabular @ end_center))
       = [TableEl hline]"
    by (simp add: renderMath_def js_includes_def startsWith_def regex_split_def
        newline_run_def segment_part_def tabular_region_def lazy_between_def index_def)
  from a b Table_rows_Nil [OF a] show ?thesis by blast
qed

section \<open>Sampling of the session's questions\<close>

lemma useMemo_same_deps:
  "memo st = Some (selectedSubject st, v) \<Longrightarrow> useMemo_filteredQuestions rs bank st = st"
  by (simp add: useMemo_filteredQuestions_def)

lemma apply_event_keeps_subject:
  assumes "selectedSubject st = Some s" "s \<noteq> []"
  shows "selectedSubject (apply_event st e) = Some s \<and> memo (apply_event st e) = memo st"
  using assms
  by (cases e)
     (simp_all add: falsy_def handleAnswer_def handleMultiAnswer_def handleNext_def
        goToQuestion_def Let_def split: option.splits)

lemma step_keeps_questions:
  assumes "selectedSubject st = Some s" "s \<noteq> []" "memo st = Some (Some s, v)"
  shows "selectedSubject (step random_sort bank st e) = Some s
       \<and> memo (step random_sort bank st e) = Some (Some s, v)"
proof -
  let ?st = "apply_event st (fst e)"
  have k: "selectedSubject ?st = Some s" "memo ?st = Some (Some s, v)"
    using apply_event_keeps_subject [OF assms(1,2)] assms(3) by simp_all
  then have "memo ?st = Some (selectedSubject ?st, v)" by simp
  then have "useMemo_filteredQuestions (random_sort (snd e)) bank ?st = ?st"
    by (rule useMemo_same_deps)
  with k show ?thesis by (simp add: step_def)
qed

lemma run_keeps_questions:
  assumes "selectedSubject st = Some s" "s \<noteq> []" "memo st = Some (Some s, v)"
  shows "questions (run random_sort bank st es) = v"
proof -
  have "selectedSubject (run random_sort bank st es) = Some s
      \<and> memo (run random_sort bank st es) = Some (Some s, v)"
    using assms(1,3) unfolding run_def
  proof (induction es arbitrary: st)
    case Nil
    then show ?case by simp
  next
    case (Cons e es)
    have "selectedSubject (step random_sort bank st e) = Some s
       \<and> memo (step random_sort bank st e) = Some (Some s, v)"
      using Cons.prems assms(2) by (intro step_keeps_questions) simp_all
    then show ?case using Cons.IH by simp
  qed
  then show ?thesis by (simp add: questions_def)
qed

lemma start_session_state:
  assumes "s \<noteq> []"
  shows "selectedSubject (start_session random_sort bank seed0 seed1 s) = Some s"
    and "memo (start_session random_sort bank seed0 seed1 s)
           = Some (Some s, take 20 (random_sort seed1 (filter (\<lambda>q. subject q = s) bank)))"
  using assms
  by (simp_all add: start_session_def step_def useMemo_filteredQuestions_def
      initial_session_def falsy_def filteredQuestions_body_def Let_def)

lemma questions_start_session:
  assumes "s \<noteq> []"
  shows "questions (start_session random_sort bank seed0 seed1 s)
           = take 20 (random_sort seed1 (filter (\<lambda>q. subject q = s) bank))"
  using start_session_state(2) [OF assms] by (simp add: questions_def)

lemma mset_rotate1_eq: "mset (rotate1 xs) = mset xs"
  by (cases xs) simp_all

lemma mset_rotate_eq: "mset (rotate n xs) = mset xs"
  by (induction n) (simp_all add: mset_rotate1_eq)

lemma mset_take_subset: "mset (take n xs) \<subseteq># mset xs"
  by (metis append_take_drop_id mset_append mset_subset_eq_add_left)

text \<open>
  C8. Let the engine's sort return a permutation of its input, and let a non-empty subject
  id be chosen on the subject screen. The session's list then has min(20, available)
  questions, each taken from the bank's questions of that subject no more often than it
  occurs there (so without repetition when the bank has none), and no later event changes
  the list. With 5 available questions the list has exactly these 5.
\<close>

theorem session_sampled_once:
  assumes "\<forall>seed xs. mset (random_sort seed xs) = mset xs" and "s \<noteq> []"
  shows "length (questions (start_session random_sort bank seed0 seed1 s))
           = min 20 (length (filter (\<lambda>q. subject q = s) bank))
       \<and> mset (questions (start_session random_sort bank seed0 seed1 s))
           \<subseteq># mset (filter (\<lambda>q. subject q = s) bank)
       \<and> (distinct bank \<longrightarrow>
            distinct (questions (start_session random_sort bank seed0 seed1 s)))
       \<and> (\<forall>es. questions (run random_sort bank
                   (start_session random_sort bank seed0 seed1 s) es)
                = questions (start_session random_sort bank seed0 seed1 s))
       \<and> (length (filter (\<lambda>q. subject q = s) bank) = 5 \<longrightarrow>
            length (questions (start_session random_sort bank seed0 seed1 s)) = 5
          \<and> mset (questions (start_session random_sort bank seed0 seed1 s))
              = mset (filter (\<lambda>q. subject q = s) bank))"
proof -
  let ?avail = "filter (\<lambda>q. subject q = s) bank"
  let ?sorted = "random_sort seed1 ?avail"
  let ?st = "start_session random_sort bank seed0 seed1 s"
  have q: "questions ?st = take 20 ?sorted"
    using assms(2) by (rule questions_start_session)
  have perm: "mset ?sorted = mset ?avail"
    using assms(1) by simp
  then have len: "length ?sorted = length ?avail"
    by (rule mset_eq_length)
  have a: "length (questions ?st) = min 20 (length ?avail)"
    by (simp add: q len min.commute)
  have b: "mset (questions ?st) \<subseteq># mset ?avail"
    using mset_take_subset [of 20 ?sorted] by (simp add: q perm)
  have c: "distinct bank \<longrightarrow> distinct (questions ?st)"
  proof
    assume "distinct bank"
    then have "distinct ?avail" by simp
    with perm have "distinct ?sorted" by (metis mset_eq_imp_distinct_iff)
    then show "distinct (questions ?st)" by (simp add: q)
  qed
  have d: "\<forall>es. questions (run random_sort bank ?st es) = questions ?st"
  proof
    fix es
    show "questions (run random_sort bank ?st es) = questions ?st"
      using run_keeps_questions [OF start_session_state(1) [OF assms(2)] assms(2)
          start_session_state(2) [OF assms(2)]]
      by (simp add: q)
  qed
  have e: "length ?avail = 5 \<longrightarrow> length (questions ?st) = 5 \<and> mset (questions ?st) = mset ?avail"
    by (simp add: q len perm)
  from a b c d e show ?thesis by blast
qed

theorem session_sampled_once_witness:
  "length (filter (\<lambda>q. subject q = ''phy'') sample_bank) = 5
   \<and> length (questions (start_session rotate sample_bank 1 2 ''phy'')) = 5
   \<and> questions (run rotate sample_bank (start_session rotate sample_bank 1 2 ''phy'')
        [(Answer 7 ''A'', 3), (Next, 4), (MultiAnswer ''C'', 5), (SelectSubject ''math'', 6)])
      = questions (start_session rotate sample_bank 1 2 ''phy'')"
proof -
  have p: "\<forall>seed xs. mset (rotate seed xs :: quiz_question list) = mset xs"
    by (simp add: mset_rotate_eq)
  have n: "''phy'' \<noteq> []" by simp
  have five: "length (filter (\<lambda>q. subject q = ''phy'') sample_bank) = 5"
    by (simp add: sample_bank_def)
  from session_sampled_once [OF p n, of sample_bank 1 2] five
  show ?thesis by blast
qed

section \<open>The segmenter outside display math\<close>

lemma spec_segments_nonempty: "spec_segments s \<noteq> []"
  by (subst spec_segments.simps) (simp split: list.splits)

lemma spec_segments_Nil: "spec_segments [] = [[]]"
  by (subst spec_segments.simps) simp

lemma spec_segments_newline:
  "spec_segments (newline # cs) = [] # spec_segments (dropWhile (\<lambda>c. c = newline) cs)"
  by (subst spec_segments.simps) simp

lemma spec_segments_other:
  assumes "c \<noteq> newline"
  shows "spec_segments (c # cs) = (c # hd (spec_segments cs)) # tl (spec_segments cs)"
proof (cases "dropWhile (\<lambda>c. c \<noteq> newline) cs")
  case Nil
  have "spec_segments cs = [cs]"
    by (subst spec_segments.simps) (simp add: Nil)
  moreover have "spec_segments (c # cs) = [c # cs]"
    by (subst spec_segments.simps) (simp add: Nil assms)
  ultimately show ?thesis by simp
next
  case (Cons d ds)
  have "spec_segments cs
      = takeWhile (\<lambda>c. c \<noteq> newline) cs # spec_segments (dropWhile (\<lambda>c. c = newline) ds)"
    by (subst spec_segments.simps) (simp add: Cons)
  moreover have "spec_segments (c # cs)
      = (c # takeWhile (\<lambda>c. c \<noteq> newline) cs)
          # spec_segments (dropWhile (\<lambda>c. c = newline) ds)"
    by (subst spec_segments.simps) (simp add: Cons assms)
  ultimately show ?thesis by simp
qed

lemma newline_run_newline:
  "newline_run (newline # cs) = Some (Suc (length (takeWhile (\<lambda>c. c = newline) cs)), [])"
  by (simp add: newline_run_def)

lemma newline_run_other: "c \<noteq> newline \<Longrightarrow> newline_run (c # cs) = None"
  by (simp add: newline_run_def)

lemma regex_split_loop_newline:
  "regex_split_loop newline_run cur s
     = (rev cur @ hd (spec_segments s)) # tl (spec_segments s)"
proof (induction s arbitrary: cur rule: length_induct)
  case (1 s)
  show ?case
  proof (cases s)
    case Nil
    then show ?thesis by (simp add: spec_segments_Nil)
  next
    case (Cons c cs)
    show ?thesis
    proof (cases "c = newline")
      case True
      let ?rest = "dropWhile (\<lambda>c. c = newline) cs"
      have "length ?rest < length s"
        using Cons length_dropWhile_le [of "\<lambda>c. c = newline" cs] by simp
      with 1 have "regex_split_loop newline_run [] ?rest
          = (rev [] @ hd (spec_segments ?rest)) # tl (spec_segments ?rest)"
        by blast
      then have ih: "regex_split_loop newline_run [] ?rest = spec_segments ?rest"
        using spec_segments_nonempty [of ?rest] by simp
      have "regex_split_loop newline_run cur s = rev cur # regex_split_loop newline_run [] ?rest"
        using Cons True by (simp add: newline_run_newline dropWhile_eq_drop)
      with ih show ?thesis
        using Cons True by (simp add: spec_segments_newline)
    next
      case False
      have "length cs < length s" using Cons by simp
      with 1 have "regex_split_loop newline_run (c # cur) cs
          = (rev (c # cur) @ hd (spec_segments cs)) # tl (spec_segments cs)"
        by blast
      then show ?thesis
        using Cons False by (simp add: newline_run_other spec_segments_other)
    qed
  qed
qed

lemma regex_split_newline: "regex_split newline_run s = spec_segments s"
proof (cases "s = []")
  case True
  then show ?thesis by (simp add: regex_split_def newline_run_def spec_segments_Nil)
next
  case False
  then show ?thesis
    using spec_segments_nonempty [of s]
    by (simp add: regex_split_def regex_split_loop_newline)
qed

lemma spec_segments_concat: "concat (spec_segments s) = filter (\<lambda>c. c \<noteq> newline) s"
proof (induction s rule: spec_segments.induct)
  case (1 s)
  let ?tw = "takeWhile (\<lambda>c. c \<noteq> newline) s"
  have tw: "filter (\<lambda>c. c \<noteq> newline) ?tw = ?tw"
    by (rule filter_True) (auto dest: set_takeWhileD)
  have s_eq: "?tw @ dropWhile (\<lambda>c. c \<noteq> newline) s = s"
    by (rule takeWhile_dropWhile_id)
  show ?case
  proof (cases "dropWhile (\<lambda>c. c \<noteq> newline) s")
    case Nil
    have "spec_segments s = [s]" by (subst spec_segments.simps) (simp add: Nil)
    moreover have "?tw = s" using s_eq by (simp add: Nil)
    ultimately show ?thesis using tw by simp
  next
    case (Cons d ds)
    let ?rest = "dropWhile (\<lambda>c. c = newline) ds"
    have d: "d = newline"
      using hd_dropWhile [of "\<lambda>c. c \<noteq> newline" s] by (simp add: Cons)
    have ss: "spec_segments s = ?tw # spec_segments ?rest"
      by (subst spec_segments.simps) (simp add: Cons)
    have r: "filter (\<lambda>c. c \<noteq> newline) ds = filter (\<lambda>c. c \<noteq> newline) ?rest"
      by (induction ds) simp_all
    have "filter (\<lambda>c. c \<noteq> newline) s
        = filter (\<lambda>c. c \<noteq> newline) (?tw @ d # ds)"
      using s_eq by (simp add: Cons)
    also have "\<dots> = ?tw @ filter (\<lambda>c. c \<noteq> newline) ?rest"
      using tw r d by simp
    also have "\<dots> = concat (spec_segments s)"
      using "1.IH" [OF Cons] by (simp add: ss)
    finally show ?thesis by simp
  qed
qed

lemma spec_segments_no_newline: "seg \<in> set (spec_segments s) \<Longrightarrow> newline \<notin> set seg"
proof -
  assume "seg \<in> set (spec_segments s)"
  then have "set seg \<subseteq> set (concat (spec_segments s))" by auto
  then show ?thesis by (auto simp: spec_segments_concat)
qed

lemma indexOf_Nil_nonempty: "p \<noteq> [] \<Longrightarrow> indexOf [] p = None"
  by simp

lemma indexOf_drop_None:
  assumes "indexOf s p = None"
  shows "indexOf (drop k s) p = None"
proof (rule ccontr)
  assume "indexOf (drop k s) p \<noteq> None"
  then obtain j where j: "indexOf (drop k s) p = Some j" by auto
  have pne: "p \<noteq> []" using assms by (cases s) (auto split: if_splits)
  from indexOf_le [OF j] pne have "k < length s" by (cases p) simp_all
  with indexOf_le [OF j] have "j + k \<le> length s" by simp
  moreover have "startsWith (drop (j + k) s) p"
    using indexOf_startsWith [OF j] by simp
  ultimately show False using indexOf_None [OF assms] by blast
qed

lemma lazy_between_Nil: "opening \<noteq> [] \<Longrightarrow> lazy_between opening closing [] = None"
  by (auto simp: lazy_between_def startsWith_def)

lemma regex_exec_lazy:
  assumes m: "\<And>s. m s = map_option (f s) (lazy_between opening closing s)"
    and ne: "opening \<noteq> []"
  shows "regex_exec m s =
     (case indexOf s opening of
        None \<Rightarrow> None
      | Some i \<Rightarrow>
          (case indexOf (drop (i + length opening) s) closing of
             None \<Rightarrow> None
           | Some j \<Rightarrow> Some (i, f (drop i s) j)))"
proof (induction s)
  case Nil
  then show ?case using ne by (simp add: m lazy_between_Nil)
next
  case (Cons c cs)
  show ?case
  proof (cases "startsWith (c # cs) opening")
    case True
    then have i0: "indexOf (c # cs) opening = Some 0" by simp
    show ?thesis
    proof (cases "indexOf (drop (length opening) (c # cs)) closing")
      case (Some j)
      with True have "m (c # cs) = Some (f (c # cs) j)"
        by (simp add: m lazy_between_def)
      with Some i0 show ?thesis by (cases "f (c # cs) j") simp
    next
      case None
      with True have mn: "m (c # cs) = None" by (simp add: m lazy_between_def)
      have "regex_exec m cs = None"
      proof (cases "indexOf cs opening")
        case None
        with Cons.IH show ?thesis by simp
      next
        case (Some i)
        have e: "drop (Suc i) (drop (length opening) (c # cs)) = drop (i + length opening) cs"
          by (simp add: add.commute)
        have "indexOf (drop (i + length opening) cs) closing = None"
          using indexOf_drop_None [OF None, of "Suc i"] unfolding e .
        with Cons.IH Some show ?thesis by simp
      qed
      with mn None i0 show ?thesis by simp
    qed
  next
    case False
    then have mn: "m (c # cs) = None" by (simp add: m lazy_between_def)
    then have ex: "regex_exec m (c # cs)
        = map_option (\<lambda>(i, n, caps). (Suc i, n, caps)) (regex_exec m cs)"
      by simp
    show ?thesis
    proof (cases "indexOf cs opening")
      case None
      then have "indexOf (c # cs) opening = None" using False by simp
      moreover have "regex_exec m cs = None" using Cons.IH None by simp
      ultimately show ?thesis using ex by simp
    next
      case (Some i)
      then have io: "indexOf (c # cs) opening = Some (Suc i)" using False by simp
      show ?thesis
      proof (cases "indexOf (drop (i + length opening) cs) closing")
        case None
        then have "regex_exec m cs = None" using Cons.IH Some by simp
        with None io ex show ?thesis by simp
      next
        case j: (Some j)
        then have "regex_exec m cs = Some (i, f (drop i cs) j)"
          using Cons.IH Some by simp
        with j io ex show ?thesis by (cases "f (drop i cs) j") simp
      qed
    qed
  qed
qed

lemma tableContent_spec:
  "(case regex_exec tabular_region part of
      None \<Rightarrow> None
    | Some (i, n, caps) \<Rightarrow> index caps 0) = spec_table_content part"
proof -
  have "regex_exec tabular_region part =
     (case indexOf part begin_tabular of
        None \<Rightarrow> None
      | Some i \<Rightarrow>
          (case indexOf (drop (i + length begin_tabular) part) end_tabular of
             None \<Rightarrow> None
           | Some j \<Rightarrow>
               Some (i, length begin_tabular + j + length end_tabular,
                     [take j (drop (length begin_tabular) (drop i part))])))"
    by (rule regex_exec_lazy) (simp_all add: tabular_region_def)
  then show ?thesis
    by (simp add: spec_table_content_def index_def add.commute split: option.splits)
qed

lemma blocks_segment_part: "blocks (segment_part katex part) = spec_segment_blocks katex part"
proof -
  have "segment_part katex part =
     (if js_includes part begin_center \<and> js_includes part begin_tabular
      then (case spec_table_content part of
              None \<Rightarrow> Str part
            | Some c \<Rightarrow> if c = [] then Str part else TableEl c)
      else if trim part = begin_center \<or> trim part = end_center then Null
      else P (renderMathInline katex part))"
    unfolding segment_part_def Let_def tableContent_spec ..
  then show ?thesis
    by (simp add: spec_segment_blocks_def spec_paragraph_def split: option.splits)
qed

lemma blocks_Arr_map: "blocks (Arr (map f xs)) = concat (map (\<lambda>x. blocks (f x)) xs)"
  by (simp add: comp_def)

text \<open>
  C2 (amended). When the text does not hold both display-math markers, \<open>renderMath\<close>
  puts on the page, in source order, the blocks of the segments between the runs of line
  feeds: nothing for a segment that trims to a center marker; for a segment with both the
  center-begin and the tabular-begin marker, a table built from the content between the
  first tabular-begin marker and the first tabular-end marker after it when that content
  exists and is not empty, and the raw segment text otherwise; a paragraph for any other
  segment. The segments hold no line feed and, concatenated, are the text without its
  line feeds.
\<close>

theorem renderMath_segments:
  assumes "\<not> (js_includes text display_open \<and> js_includes text display_close)"
  shows "blocks (renderMath katex text)
           = concat (map (spec_segment_blocks katex) (spec_segments text))
       \<and> concat (spec_segments text) = filter (\<lambda>c. c \<noteq> newline) text
       \<and> (\<forall>seg \<in> set (spec_segments text). newline \<notin> set seg)"
proof -
  have "blocks (renderMath katex text)
      = concat (map (\<lambda>x. blocks (segment_part katex x)) (spec_segments text))"
    using assms by (simp only: renderMath_def if_False blocks_Arr_map regex_split_newline)
  then show ?thesis
    by (simp add: blocks_segment_part spec_segments_concat spec_segments_no_newline)
qed

theorem renderMath_segments_witness:
  "\<not> (js_includes (''Find $x$'' @ [newline, newline] @ begin_center @ begin_tabular
                      @ ''a & b'' @ end_tabular @ end_center @ [newline] @ end_center)
          display_open)
   \<and> blocks (renderMath katex_echo
        (''Find $x$'' @ [newline, newline] @ begin_center @ begin_tabular
           @ ''a & b'' @ end_tabular @ end_center @ [newline] @ end_center))
     = [P [Text ''Find '', KatexSpan ''x'', Text ''''], TableEl ''a & b'']"
proof -
  let ?t = "''Find $x$'' @ [newline, newline] @ begin_center @ begin_tabular
              @ ''a & b'' @ end_tabular @ end_center @ [newline] @ end_center"
  have n: "\<not> js_includes ?t display_open"
    by (simp add: js_includes_def startsWith_def)
  then have h: "\<not> (js_includes ?t display_open \<and> js_includes ?t display_close)"
    by simp
  have ev: "concat (map (spec_segment_blocks katex_echo) (spec_segments ?t))
      = [P [Text ''Find '', KatexSpan ''x'', Text ''''], TableEl ''a & b'']"
    by (simp add: spec_segments.simps spec_segment_blocks_def js_includes_def startsWith_def
        trim_def is_space_def spec_paragraph_def renderMathInline_def split.simps
        inline_part_def katex_echo_def spec_table_content_def)
  from renderMath_segments [OF h, of katex_echo]
  have "blocks (renderMath katex_echo ?t)
      = concat (map (spec_segment_blocks katex_echo) (spec_segments ?t))"
    by blast
  with n ev show ?thesis by simp
qed

text \<open>
  Against C2 as stated: a segment with the center-begin and the tabular-begin marker whose
  tabular content is empty, and one with no tabular-end marker, are each put on the page
  as the raw segment text, not as a table.
\<close>

theorem renderMath_segments_counterexample:
  "\<not> js_includes (begin_center @ begin_tabular @ end_tabular @ end_center) display_open
   \<and> js_includes (begin_center @ begin_tabular @ end_tabular @ end_center) begin_center
   \<and> js_includes (begin_center @ begin_tabular @ end_tabular @ end_center) begin_tabular
   \<and> spec_table_content (begin_center @ begin_tabular @ end_tabular @ end_center) = Some []
   \<and> blocks (renderMath katex_echo (begin_center @ begin_tabular @ end_tabular @ end_center))
       = [Str (begin_center @ begin_tabular @ end_tabular @ end_center)]
   \<and> blocks (renderMath katex_echo (begin_center @ begin_tabular @ end_tabular @ end_center))
       \<noteq> [TableEl []]
   \<and> \<not> js_includes (begin_center @ begin_tabular @ ''a & b'') display_open
   \<and> js_includes (begin_center @ begin_tabular @ ''a & b'') begin_center
   \<and> js_includes (begin_center @ begin_tabular @ ''a & b'') begin_tabular
   \<and> blocks (renderMath katex_echo (begin_center @ begin_tabular @ ''a & b''))
       = [Str (begin_center @ begin_tabular @ ''a & b'')]"
  by (simp add: js_includes_def startsWith_def spec_table_content_def renderMath_def
      regex_split_def newline_run_def segment_part_def tabular_region_def lazy_between_def
      index_def)

section \<open>The segmenter around display math\<close>

lemma regex_split_loop_first_match:
  assumes pos: "\<And>s n caps. m s = Some (n, caps) \<Longrightarrow> 0 < n" and nil: "m [] = None"
  shows "regex_split_loop m cur s =
     (case regex_exec m s of
        None \<Rightarrow> [rev cur @ s]
      | Some (i, n, caps) \<Rightarrow>
          (rev cur @ take i s) # caps @ regex_split_loop m [] (drop (i + n) s))"
proof (induction s arbitrary: cur)
  case Nil
  then show ?case by (simp add: nil)
next
  case (Cons c cs)
  show ?case
  proof (cases "m (c # cs)")
    case None
    then have l: "regex_split_loop m cur (c # cs) = regex_split_loop m (c # cur) cs"
      by simp
    show ?thesis
    proof (cases "regex_exec m cs")
      case n: None
      then show ?thesis using None l Cons.IH [of "c # cur"] by simp
    next
      case s: (Some r)
      obtain i n caps where r: "r = (i, n, caps)" by (cases r)
      show ?thesis using None l Cons.IH [of "c # cur"] s r by simp
    qed
  next
    case (Some r)
    obtain n caps where r: "r = (n, caps)" by (cases r)
    with Some pos have "0 < n" by blast
    with Some r show ?thesis by simp
  qed
qed

lemma regex_split_loop_eq:
  "m [] = None \<Longrightarrow> regex_split m s = regex_split_loop m [] s"
  by (cases s) (simp_all add: regex_split_def)

lemma display_region_Nil: "display_region [] = None"
  by (simp add: display_region_def lazy_between_def startsWith_def)

lemma display_region_pos: "display_region s = Some (n, caps) \<Longrightarrow> 0 < n"
  by (auto simp: display_region_def)

lemma regex_exec_display_region:
  "regex_exec display_region s =
     (case indexOf s display_open of
        None \<Rightarrow> None
      | Some i \<Rightarrow>
          (case indexOf (drop (i + 2) s) display_close of
             None \<Rightarrow> None
           | Some j \<Rightarrow> Some (i, 2 + j + 2, [take (2 + j + 2) (drop i s)])))"
proof -
  have "regex_exec display_region s =
     (case indexOf s display_open of
        None \<Rightarrow> None
      | Some i \<Rightarrow>
          (case indexOf (drop (i + length display_open) s) display_close of
             None \<Rightarrow> None
           | Some j \<Rightarrow> Some (i, 2 + j + 2, [take (2 + j + 2) (drop i s)])))"
    by (rule regex_exec_lazy) (simp_all add: display_region_def)
  moreover have "length display_open = 2" by simp
  ultimately show ?thesis by (simp only:)
qed

lemma concat_map_optional:
  "concat (map (\<lambda>x. if Q x then [] else [g x]) xs) = map g (filter (\<lambda>x. \<not> Q x) xs)"
  by (induction xs) simp_all

lemma blocks_display_part_text:
  assumes "\<not> (startsWith part display_open \<and> endsWith part display_close)"
  shows "blocks (display_part katex part) = spec_paragraphs katex part"
proof -
  have "display_part katex part
      = Arr (map (\<lambda>textPart. if trim textPart = [] then Null
                              else P (renderMathInline katex textPart))
                 (spec_segments part))"
    using assms by (simp only: display_part_def if_False regex_split_newline)
  then have "blocks (display_part katex part)
      = concat (map (\<lambda>x. if trim x = [] then [] else [spec_paragraph katex x])
                  (spec_segments part))"
    by (simp add: comp_def spec_paragraph_def if_distrib cong: if_cong)
  then show ?thesis
    by (simp only: concat_map_optional spec_paragraphs_def)
qed

lemma display_part_region:
  "display_part katex (display_open @ body @ display_close) = spec_display_math katex body"
proof -
  let ?part = "display_open @ body @ display_close"
  have "startsWith ?part display_open" by (simp add: startsWith_def)
  moreover have "endsWith ?part display_close" by (simp add: endsWith_def)
  moreover have "slice ?part 2 (- 2) = body" by (simp add: slice_def Let_def)
  ultimately show ?thesis
    by (simp only: display_part_def spec_display_math_def Let_def simp_thms if_True)
qed

lemma display_wrapped_has_close:
  assumes "startsWith s display_open" "endsWith s display_close"
  shows "indexOf (drop 2 s) display_close \<noteq> None"
proof -
  from startsWith_decomp [OF assms(1)] obtain rest where s: "s = display_open @ rest"
    by simp
  from assms(2) have e: "drop (length s - 2) s = display_close"
    by (simp add: endsWith_def numeral_2_eq_2)
  have "2 \<le> length rest"
  proof (rule ccontr)
    assume "\<not> 2 \<le> length rest"
    then consider "rest = []" | x where "rest = [x]"
      by (cases rest; cases "tl rest") auto
    then show False using e s by cases simp_all
  qed
  then obtain k where k: "length rest = Suc (Suc k)"
    by (metis One_nat_def Suc_le_D Suc_le_mono one_add_one plus_1_eq_Suc)
  have "drop (length s - 2) s = drop k rest"
    using s k by simp
  with e have "startsWith (drop k (drop 2 s)) display_close"
    using s by (simp add: startsWith_def)
  moreover have "k \<le> length (drop 2 s)" using s k by simp
  ultimately show ?thesis using indexOf_found by fastforce
qed

lemma display_open_at:
  assumes "indexOf s display_open = Some i" "indexOf (drop (i + 2) s) display_close = Some j"
  shows "take (2 + j + 2) (drop i s)
           = display_open @ take j (drop (i + 2) s) @ display_close"
proof -
  let ?t = "drop (i + 2) s"
  have "drop i s = display_open @ drop 2 (drop i s)"
    using startsWith_decomp [OF indexOf_startsWith [OF assms(1)]] by simp
  then have d: "drop i s = display_open @ ?t" by (simp add: add.commute)
  have t: "?t = take j ?t @ display_close @ drop (j + 2) ?t"
    using indexOf_split3 [OF assms(2)] by simp
  have lj: "length (take j ?t) = j"
    using indexOf_le [OF assms(2)] by simp
  have "take (2 + j + 2) (drop i s) = display_open @ take (j + 2) ?t"
    by (subst d) simp
  also have "take (j + 2) ?t = take (j + 2) (take j ?t @ display_close @ drop (j + 2) ?t)"
    using t by simp
  also have "\<dots> = take j ?t @ display_close"
    using lj by (simp del: take_take length_take)
  finally show ?thesis .
qed

lemma blocks_spec_display_math:
  "blocks (spec_display_math katex body) = [spec_display_math katex body]"
  by (simp add: spec_display_math_def split: option.splits)

lemma display_blocks_loop:
  "concat (map (\<lambda>p. blocks (display_part katex p)) (regex_split_loop display_region [] s))
     = spec_carve (spec_paragraphs katex) (spec_display_math katex) s"
proof (induction s rule: length_induct)
  case (1 s)
  let ?out = "spec_paragraphs katex" and ?ins = "spec_display_math katex"
  have loop: "regex_split_loop display_region [] s =
     (case regex_exec display_region s of
        None \<Rightarrow> [rev [] @ s]
      | Some (i, n, caps) \<Rightarrow>
          (rev [] @ take i s) # caps @ regex_split_loop display_region [] (drop (i + n) s))"
    by (rule regex_split_loop_first_match) (auto simp: display_region_Nil display_region_pos)
  show ?case
  proof (cases "indexOf s display_open")
    case None
    then have "regex_split_loop display_region [] s = [s]"
      using loop by (simp add: regex_exec_display_region)
    moreover have "spec_carve ?out ?ins s = ?out s"
      by (subst spec_carve.simps) (simp only: None option.case)
    moreover have "\<not> startsWith s display_open"
      using indexOf_None [OF None, of 0] by simp
    ultimately show ?thesis by (simp add: blocks_display_part_text)
  next
    case (Some i)
    show ?thesis
    proof (cases "indexOf (drop (i + 2) s) display_close")
      case None
      then have "regex_split_loop display_region [] s = [s]"
        using loop Some by (simp add: regex_exec_display_region)
      moreover have "spec_carve ?out ?ins s = ?out s"
        by (subst spec_carve.simps) (simp only: Some None option.case)
      moreover have "\<not> (startsWith s display_open \<and> endsWith s display_close)"
      proof
        assume w: "startsWith s display_open \<and> endsWith s display_close"
        then have "i = 0" using Some indexOf_first [OF Some, of 0] by (cases i) simp_all
        with None have "indexOf (drop 2 s) display_close = None"
          by (simp add: numeral_2_eq_2)
        with display_wrapped_has_close [of s] w show False by blast
      qed
      ultimately show ?thesis by (simp add: blocks_display_part_text)
    next
      case j: (Some j)
      let ?rest = "drop (i + 2 + j + 2) s"
      have l: "regex_split_loop display_region [] s
          = take i s # take (2 + j + 2) (drop i s) # regex_split_loop display_region [] ?rest"
        using loop Some j by (simp add: regex_exec_display_region add.assoc)
      have c: "spec_carve ?out ?ins s
          = ?out (take i s) @ [?ins (take j (drop (i + 2) s))] @ spec_carve ?out ?ins ?rest"
        by (subst spec_carve.simps) (simp only: Some j option.case)
      have "indexOf (take i s) display_open = None"
        using indexOf_take_None [OF Some] by simp
      then have "\<not> startsWith (take i s) display_open"
        using indexOf_None [of "take i s" display_open 0] by simp
      then have b1: "blocks (display_part katex (take i s)) = ?out (take i s)"
        by (simp add: blocks_display_part_text)
      have b2: "blocks (display_part katex (take (2 + j + 2) (drop i s)))
          = [?ins (take j (drop (i + 2) s))]"
        by (simp only: display_open_at [OF Some j] display_part_region blocks_spec_display_math)
      have "s \<noteq> []" using Some by (cases s) simp_all
      then have "length ?rest < length s" by simp
      with 1 have ih: "concat (map (\<lambda>p. blocks (display_part katex p))
                                 (regex_split_loop display_region [] ?rest))
          = spec_carve ?out ?ins ?rest"
        by blast
      show ?thesis
        by (simp only: l c list.map concat.simps b1 b2 ih append.simps)
    qed
  qed
qed

lemma renderMath_display_blocks:
  assumes "js_includes text display_open \<and> js_includes text display_close"
  shows "blocks (renderMath katex text)
           = spec_carve (spec_paragraphs katex) (spec_display_math katex) text"
proof -
  have "renderMath katex text
      = Fragment (map (display_part katex) (regex_split_loop display_region [] text))"
    using assms by (simp add: renderMath_def regex_split_loop_eq display_region_Nil)
  then show ?thesis
    by (simp add: comp_def display_blocks_loop)
qed

lemma js_includes_iff: "js_includes s p \<longleftrightarrow> (\<exists>a b. s = a @ p @ b)"
proof
  assume "js_includes s p"
  then obtain j where "indexOf s p = Some j" by (auto simp: js_includes_def)
  from indexOf_split3 [OF this] show "\<exists>a b. s = a @ p @ b" by blast
next
  assume "\<exists>a b. s = a @ p @ b"
  then obtain a b where "s = a @ p @ b" by blast
  with indexOf_append_found [of a p b] show "js_includes s p"
    by (auto simp: js_includes_def)
qed

lemma js_includes_part:
  assumes "js_includes part p" "s = a @ part @ b"
  shows "js_includes s p"
proof -
  from assms(1) obtain c d where "part = c @ p @ d" by (auto simp: js_includes_iff)
  with assms(2) have "s = (a @ c) @ p @ (d @ b)" by simp
  then show ?thesis unfolding js_includes_iff by blast
qed

lemma spec_segments_part:
  "seg \<in> set (spec_segments s) \<Longrightarrow> \<exists>a b. s = a @ seg @ b"
proof (induction s rule: length_induct)
  case (1 s)
  let ?tw = "takeWhile (\<lambda>c. c \<noteq> newline) s"
  have s_eq: "s = ?tw @ dropWhile (\<lambda>c. c \<noteq> newline) s" by simp
  show ?case
  proof (cases "dropWhile (\<lambda>c. c \<noteq> newline) s")
    case Nil
    have "spec_segments s = [s]" by (subst spec_segments.simps) (simp add: Nil)
    with "1.prems" have "s = [] @ seg @ []" by simp
    then show ?thesis by blast
  next
    case (Cons d ds)
    let ?rest = "dropWhile (\<lambda>c. c = newline) ds"
    have ss: "spec_segments s = ?tw # spec_segments ?rest"
      by (subst spec_segments.simps) (simp add: Cons)
    have s2: "s = ?tw @ d # ds" using s_eq by (simp only: Cons)
    from "1.prems" ss have "seg = ?tw \<or> seg \<in> set (spec_segments ?rest)" by simp
    then show ?thesis
    proof
      assume "seg = ?tw"
      with s2 have "s = [] @ seg @ (d # ds)" by simp
      then show ?thesis by blast
    next
      assume in_rest: "seg \<in> set (spec_segments ?rest)"
      have "length ?rest \<le> length ds" by (rule length_dropWhile_le)
      moreover have "length ds < length s"
        using arg_cong [OF s2, of length] by simp
      ultimately have "length ?rest < length s" by simp
      with 1 in_rest obtain a b where r: "?rest = a @ seg @ b" by blast
      have "ds = takeWhile (\<lambda>c. c = newline) ds @ ?rest" by simp
      with r have "ds = (takeWhile (\<lambda>c. c = newline) ds @ a) @ seg @ b" by simp
      with s2 have "s = (?tw @ d # takeWhile (\<lambda>c. c = newline) ds @ a) @ seg @ b"
        by (metis append_Cons append_assoc)
      then show ?thesis by blast
    qed
  qed
qed

lemma trim_part: "\<exists>a b. s = a @ trim s @ b"
proof -
  let ?t = "dropWhile is_space s"
  have a: "takeWhile is_space (rev ?t) @ dropWhile is_space (rev ?t) = rev ?t" by simp
  have "rev (dropWhile is_space (rev ?t)) @ rev (takeWhile is_space (rev ?t))
      = rev (takeWhile is_space (rev ?t) @ dropWhile is_space (rev ?t))"
    by (simp only: rev_append)
  also have "\<dots> = rev (rev ?t)" by (simp only: a)
  finally have t: "trim s @ rev (takeWhile is_space (rev ?t)) = ?t"
    by (simp add: trim_def)
  have "s = takeWhile is_space s @ ?t" by simp
  then have "s = takeWhile is_space s @ trim s @ rev (takeWhile is_space (rev ?t))"
    by (simp only: t)
  then show ?thesis by blast
qed

lemma spec_segment_blocks_plain:
  assumes "\<not> js_includes seg begin_center" "\<not> js_includes seg end_center"
  shows "spec_segment_blocks katex seg = [spec_paragraph katex seg]"
proof -
  obtain a b where ab: "seg = a @ trim seg @ b" using trim_part by blast
  have "trim seg \<noteq> begin_center"
  proof
    assume "trim seg = begin_center"
    with ab have "\<exists>a b. seg = a @ begin_center @ b" by metis
    with assms(1) show False unfolding js_includes_iff by blast
  qed
  moreover have "trim seg \<noteq> end_center"
  proof
    assume "trim seg = end_center"
    with ab have "\<exists>a b. seg = a @ end_center @ b" by metis
    with assms(2) show False unfolding js_includes_iff by blast
  qed
  ultimately show ?thesis
    using assms(1) by (simp add: spec_segment_blocks_def)
qed

lemma spec_paragraphs_nonblank_rules:
  assumes "\<not> js_includes part begin_center" "\<not> js_includes part end_center"
  shows "spec_paragraphs katex part = spec_nonblank_rules katex part"
proof -
  have "spec_segment_blocks katex seg = [spec_paragraph katex seg]"
    if "seg \<in> set (spec_segments part)" for seg
  proof -
    from spec_segments_part [OF that] obtain a b where "part = a @ seg @ b" by blast
    with assms js_includes_part have "\<not> js_includes seg begin_center"
      "\<not> js_includes seg end_center" by blast+
    then show ?thesis by (rule spec_segment_blocks_plain)
  qed
  then have eq: "map (spec_segment_blocks katex)
                   (filter (\<lambda>seg. trim seg \<noteq> []) (spec_segments part))
      = map (\<lambda>seg. [spec_paragraph katex seg])
          (filter (\<lambda>seg. trim seg \<noteq> []) (spec_segments part))"
    by (intro map_cong) auto
  show ?thesis
    unfolding spec_paragraphs_def spec_nonblank_rules_def eq concat_map_singleton ..
qed

lemma spec_carve_cong:
  assumes "\<And>a part b. s = a @ part @ b \<Longrightarrow> out1 part = out2 part"
  shows "spec_carve out1 inside s = spec_carve out2 inside s"
  using assms
proof (induction s rule: length_induct)
  case (1 s)
  have whole: "out1 s = out2 s" using "1.prems" [of "[]" s "[]"] by simp
  show ?case
  proof (cases "indexOf s display_open")
    case None
    then show ?thesis
      by (subst (1 2) spec_carve.simps) (simp only: None option.case whole)
  next
    case (Some i)
    show ?thesis
    proof (cases "indexOf (drop (i + 2) s) display_close")
      case None
      then show ?thesis
        by (subst (1 2) spec_carve.simps) (simp only: Some None option.case whole)
    next
      case j: (Some j)
      let ?rest = "drop (i + 2 + j + 2) s"
      have "s = [] @ take i s @ drop i s" by simp
      then have pre: "out1 (take i s) = out2 (take i s)" by (rule "1.prems")
      have "s \<noteq> []" using Some by (cases s) simp_all
      then have "length ?rest < length s" by simp
      moreover have "out1 part = out2 part" if "?rest = a @ part @ b" for a part b
      proof -
        have "s = take (i + 2 + j + 2) s @ ?rest" by simp
        with that have "s = (take (i + 2 + j + 2) s @ a) @ part @ b" by simp
        then show ?thesis by (rule "1.prems")
      qed
      ultimately have "spec_carve out1 inside ?rest = spec_carve out2 inside ?rest"
        using 1 by blast
      then show ?thesis
        by (subst (1 2) spec_carve.simps) (simp only: Some j option.case pre)
    qed
  qed
qed

text \<open>
  C1 (amended). When the text holds both display-math markers, \<open>renderMath\<close> cuts it at
  its display-math regions, each from an opening marker to the first closing marker after
  it. The interior of a region becomes one display-math block. If the text carries no
  center marker, every part outside the regions goes through the remaining rules segment
  by segment, a segment that is blank when trimmed giving no block: each other segment
  becomes a paragraph.
\<close>

theorem renderMath_display_regions:
  assumes "js_includes text display_open \<and> js_includes text display_close"
    and "\<not> js_includes text begin_center" and "\<not> js_includes text end_center"
  shows "blocks (renderMath katex text)
           = spec_carve (spec_nonblank_rules katex) (spec_display_math katex) text
       \<and> blocks (renderMath katex text)
           = spec_carve (spec_paragraphs katex) (spec_display_math katex) text"
proof -
  have "spec_paragraphs katex part = spec_nonblank_rules katex part"
    if "text = a @ part @ b" for a part b
  proof -
    from that assms(2,3) js_includes_part have "\<not> js_includes part begin_center"
      "\<not> js_includes part end_center" by blast+
    then show ?thesis by (rule spec_paragraphs_nonblank_rules)
  qed
  then have "spec_carve (spec_paragraphs katex) (spec_display_math katex) text
      = spec_carve (spec_nonblank_rules katex) (spec_display_math katex) text"
    by (rule spec_carve_cong)
  with renderMath_display_blocks [OF assms(1)] show ?thesis by simp
qed

theorem renderMath_display_regions_witness:
  "js_includes (''Let'' @ [newline] @ display_open @ '' x^2 '' @ display_close
                  @ ''then $y$'' @ [newline] @ '' '') display_open
   \<and> js_includes (''Let'' @ [newline] @ display_open @ '' x^2 '' @ display_close
                  @ ''then $y$'' @ [newline] @ '' '') display_close
   \<and> blocks (renderMath katex_echo
        (''Let'' @ [newline] @ display_open @ '' x^2 '' @ display_close
           @ ''then $y$'' @ [newline] @ '' ''))
     = [P [Text ''Let''], MathDiv ''x^2'', P [Text ''then '', KatexSpan ''y'', Text '''']]"
proof -
  let ?t = "''Let'' @ [newline] @ display_open @ '' x^2 '' @ display_close
              @ ''then $y$'' @ [newline] @ '' ''"
  have g: "js_includes ?t display_open \<and> js_includes ?t display_close"
    by (simp add: js_includes_def startsWith_def)
  have c1: "\<not> js_includes ?t begin_center"
    by (simp add: js_includes_def startsWith_def)
  have c2: "\<not> js_includes ?t end_center"
    by (simp add: js_includes_def startsWith_def)
  have ev: "spec_carve (spec_paragraphs katex_echo) (spec_display_math katex_echo) ?t
      = [P [Text ''Let''], MathDiv ''x^2'', P [Text ''then '', KatexSpan ''y'', Text '''']]"
    by (simp add: spec_carve.simps startsWith_def spec_paragraphs_def spec_segments.simps
        trim_def is_space_def spec_paragraph_def spec_display_math_def renderMathInline_def
        split.simps inline_part_def katex_echo_def)
  from renderMath_display_regions [OF g c1 c2, of katex_echo]
  have "blocks (renderMath katex_echo ?t)
      = spec_carve (spec_paragraphs katex_echo) (spec_display_math katex_echo) ?t"
    by blast
  with g ev show ?thesis by simp
qed

text \<open>
  Against C1 as stated: with the remaining rules applied to the text around the region,
  the text \<open>\[x\]\<close> would give an empty paragraph before and after the display block,
  and a table after a region would give a table block; \<open>renderMath\<close> gives the display
  block alone, and a paragraph holding the table markup.
\<close>

theorem renderMath_display_regions_counterexample:
  "js_includes (display_open @ ''x'' @ display_close) display_open
   \<and> js_includes (display_open @ ''x'' @ display_close) display_close
   \<and> blocks (renderMath katex_echo (display_open @ ''x'' @ display_close)) = [MathDiv ''x'']
   \<and> spec_carve (spec_remaining_rules katex_echo) (spec_display_math katex_echo)
        (display_open @ ''x'' @ display_close)
       = [P [Text ''''], MathDiv ''x'', P [Text '''']]
   \<and> blocks (renderMath katex_echo (display_open @ ''x'' @ display_close))
       \<noteq> spec_carve (spec_remaining_rules katex_echo) (spec_display_math katex_echo)
            (display_open @ ''x'' @ display_close)
   \<and> blocks (renderMath katex_echo
        (display_open @ ''x'' @ display_close @ [newline]
           @ begin_center @ begin_tabular @ ''a & b'' @ end_tabular @ end_center))
       = [MathDiv ''x'',
          P [Text (begin_center @ begin_tabular @ ''a & b'' @ end_tabular @ end_center)]]
   \<and> spec_carve (spec_remaining_rules katex_echo) (spec_display_math katex_echo)
        (display_open @ ''x'' @ display_close @ [newline]
           @ begin_center @ begin_tabular @ ''a & b'' @ end_tabular @ end_center)
       = [P [Text ''''], MathDiv ''x'', P [Text ''''], TableEl ''a & b'']"
proof -
  have a: "js_includes (display_open @ ''x'' @ display_close) display_open
      \<and> js_includes (display_open @ ''x'' @ display_close) display_close"
    by (simp add: js_includes_def startsWith_def)
  have b: "blocks (renderMath katex_echo (display_open @ ''x'' @ display_close))
      = [MathDiv ''x'']"
    by (simp add: renderMath_def js_includes_def startsWith_def endsWith_def regex_split_def
        display_region_def lazy_between_def display_part_def slice_def trim_def is_space_def
        newline_run_def katex_echo_def)
  have c: "spec_carve (spec_remaining_rules katex_echo) (spec_display_math katex_echo)
        (display_open @ ''x'' @ display_close)
       = [P [Text ''''], MathDiv ''x'', P [Text '''']]"
    by (simp add: spec_carve.simps startsWith_def spec_remaining_rules_def spec_segments.simps
        spec_segment_blocks_def js_includes_def trim_def is_space_def spec_paragraph_def
        spec_display_math_def renderMathInline_def split.simps inline_part_def katex_echo_def)
  have ne: "blocks (renderMath katex_echo (display_open @ ''x'' @ display_close))
       \<noteq> spec_carve (spec_remaining_rules katex_echo) (spec_display_math katex_echo)
            (display_open @ ''x'' @ display_close)"
    unfolding b c by simp
  have d: "blocks (renderMath katex_echo
        (display_open @ ''x'' @ display_close @ [newline]
           @ begin_center @ begin_tabular @ ''a & b'' @ end_tabular @ end_center))
       = [MathDiv ''x'',
          P [Text (begin_center @ begin_tabular @ ''a & b'' @ end_tabular @ end_center)]]"
    by (simp add: renderMath_def js_includes_def startsWith_def endsWith_def regex_split_def
        display_region_def lazy_between_def display_part_def slice_def trim_def is_space_def
        newline_run_def katex_echo_def renderMathInline_def split.simps inline_part_def)
  have e: "spec_carve (spec_remaining_rules katex_echo) (spec_display_math katex_echo)
        (display_open @ ''x'' @ display_close @ [newline]
           @ begin_center @ begin_tabular @ ''a & b'' @ end_tabular @ end_center)
       = [P [Text ''''], MathDiv ''x'', P [Text ''''], TableEl ''a & b'']"
    by (simp add: spec_carve.simps startsWith_def spec_remaining_rules_def spec_segments.simps
        spec_segment_blocks_def js_includes_def trim_def is_space_def spec_paragraph_def
        spec_display_math_def renderMathInline_def split.simps inline_part_def katex_echo_def
        spec_table_content_def)
  from a b c ne d e show ?thesis by blast
qed

section \<open>Expressions that fail to typeset\<close>







end
